theory Spec2Isabelle
  imports Complex_Main "HOL-Library.Signed_Division"
begin

section \<open>Failures: exceptions, \<open>noexcept\<close> and undefined behaviour\<close>

text \<open>
  The two headers raise three exceptions of the standard library. A function of the
  source returns a value, or fails in one of three ways: an exception leaves it
  (\<open>Thrown\<close>); an exception reaches the boundary of a function declared
  \<open>noexcept\<close>, where C++ calls \<open>std::terminate\<close> and the caller never sees
  the exception (\<open>Terminated\<close>, with the exception that caused it); or the
  execution has no defined meaning (\<open>Undefined\<close>: signed overflow, division by zero,
  an access outside a block, a read of a cell never written).
\<close>

datatype exn = invalid_argument | out_of_range | bad_alloc

datatype failure = Thrown exn | Terminated exn | Undefined

type_synonym 'a result = "failure + 'a"

definition seq :: "'a result \<Rightarrow> ('a \<Rightarrow> 'b result) \<Rightarrow> 'b result" where
  "seq m f = (case m of Inl e \<Rightarrow> Inl e | Inr x \<Rightarrow> f x)"

text \<open>The boundary of a function whose exception specification evaluates to \<open>b\<close>.\<close>

definition noexcept :: "bool \<Rightarrow> 'a result \<Rightarrow> 'a result" where
  "noexcept b m = (case m of Inl (Thrown e) \<Rightarrow> if b then Inl (Terminated e) else Inl (Thrown e)
                    | _ \<Rightarrow> m)"

text \<open>The exception behind a failure, if there is one.\<close>

fun condition :: "failure \<Rightarrow> exn option" where
  "condition (Thrown e) = Some e"
| "condition (Terminated e) = Some e"
| "condition Undefined = None"

section \<open>\<open>rational.h\<close>: the class template \<open>rational_t<IntT>\<close>\<close>

subsection \<open>The integer parameter type\<close>

text \<open>
  \<open>IntT\<close> is a template parameter (\<open>static_assert\<close>: integral). The model covers
  the signed instances: \<open>Signed w\<close> is the two's complement type of \<open>w\<close> bits
  (\<open>char\<close> in \<open>main.cpp\<close> is \<open>Signed 8\<close>, the default \<open>int\<close> is
  \<open>Signed 32\<close>), and \<open>Exact\<close> is the type of all integers, the semantic type the
  specification speaks of. Values are integers throughout; the type says which of them
  a variable can hold.
\<close>

datatype int_type = Exact | Signed nat

fun representable :: "int_type \<Rightarrow> int \<Rightarrow> bool" where
  "representable Exact x = True"
| "representable (Signed w) x = (- (2 ^ (w - 1)) \<le> x \<and> x < 2 ^ (w - 1))"

text \<open>Conversion to a narrower signed type keeps the value modulo \<open>2 ^ w\<close>.\<close>

fun convert :: "int_type \<Rightarrow> int \<Rightarrow> int" where
  "convert Exact x = x"
| "convert (Signed w) x = (x + 2 ^ (w - 1)) mod 2 ^ w - 2 ^ (w - 1)"

text \<open>The type \<open>int\<close>, and the type an \<open>IntT\<close> operand is promoted to before
  arithmetic (\<open>int\<close> unless \<open>IntT\<close> is wider).\<close>

fun c_int :: "int_type \<Rightarrow> int_type" where
  "c_int Exact = Exact"
| "c_int (Signed w) = Signed 32"

fun promoted :: "int_type \<Rightarrow> int_type" where
  "promoted Exact = Exact"
| "promoted (Signed w) = Signed (max w 32)"

text \<open>The value of an arithmetic expression evaluated in the promoted type: signed
  overflow is undefined.\<close>

definition arith :: "int_type \<Rightarrow> int \<Rightarrow> int result" where
  "arith t x = (if representable (promoted t) x then Inr x else Inl Undefined)"

text \<open>\<open>a / b\<close> of C++ truncates towards zero; division by zero is undefined.\<close>

definition divide_c :: "int_type \<Rightarrow> int \<Rightarrow> int \<Rightarrow> int result" where
  "divide_c t x y = (if y = 0 then Inl Undefined else arith t (x sdiv y))"

subsection \<open>The class\<close>

record rational =
  num :: int
  denom :: int

text \<open>
  Modelled from the spec: \<open>std::experimental::gcd\<close> is library code, not part of the
  repository; it is the greatest common divisor by absolute value, computed in
  \<open>IntT\<close>, and undefined when an absolute value is not a value of \<open>IntT\<close>.
\<close>

definition std_gcd :: "int_type \<Rightarrow> int \<Rightarrow> int \<Rightarrow> int result" where
  "std_gcd t a b = (if representable t \<bar>a\<bar> \<and> representable t \<bar>b\<bar> then Inr (gcd a b)
                    else Inl Undefined)"

text \<open>\<open>rational_t::gcd\<close> (lines 232-238) returns the library's result as an
  \<open>int\<close>; the statements after its \<open>return\<close> are never reached.\<close>

definition gcd_r :: "int_type \<Rightarrow> int \<Rightarrow> int \<Rightarrow> int result" where
  "gcd_r t a b = seq (std_gcd t a b) (\<lambda>g. Inr (convert (c_int t) g))"

text \<open>\<open>-x\<close> stored in an \<open>IntT\<close>: the negation is computed in the promoted type.\<close>

definition negate :: "int_type \<Rightarrow> int \<Rightarrow> int result" where
  "negate t x = seq (arith t (- x)) (\<lambda>y. Inr (convert t y))"

text \<open>\<open>x /= g\<close> for an \<open>IntT\<close> \<open>x\<close> and an \<open>int\<close> \<open>g\<close>.\<close>

definition div_assign :: "int_type \<Rightarrow> int \<Rightarrow> int \<Rightarrow> int result" where
  "div_assign t x g = seq (divide_c t x g) (\<lambda>q. Inr (convert t q))"

text \<open>\<open>rational_t::check\<close> (lines 44-53).\<close>

definition check :: "int_type \<Rightarrow> rational \<Rightarrow> rational result" where
  "check t r =
     seq (if denom r < 0
          then seq (negate t (denom r)) (\<lambda>d.
               seq (negate t (num r)) (\<lambda>n. Inr \<lparr>num = n, denom = d\<rparr>))
          else Inr r) (\<lambda>r1.
     seq (gcd_r t (num r1) (denom r1)) (\<lambda>g.
     seq (div_assign t (denom r1) g) (\<lambda>d.
     seq (div_assign t (num r1) g) (\<lambda>n. Inr \<lparr>num = n, denom = d\<rparr>))))"

text \<open>The constructors (lines 55-61).\<close>

definition rational_0 :: rational where
  "rational_0 = \<lparr>num = 0, denom = 1\<rparr>"

definition rational_t :: "int_type \<Rightarrow> int \<Rightarrow> int \<Rightarrow> rational result" where
  "rational_t t n d =
     (if d = 0 then Inl (Thrown invalid_argument) else check t \<lparr>num = n, denom = d\<rparr>)"

text \<open>Unary minus (lines 90-93), \<open>noexcept\<close>.\<close>

definition uminus_r :: "int_type \<Rightarrow> rational \<Rightarrow> rational result" where
  "uminus_r t r = noexcept True (seq (negate t (num r)) (\<lambda>n. rational_t t n (denom r)))"

text \<open>\<open>operator==\<close> (lines 136-140).\<close>

definition eq_r :: "rational \<Rightarrow> rational \<Rightarrow> bool" where
  "eq_r lhs rhs = (denom lhs = denom rhs \<and> num lhs = num rhs)"

text \<open>
  Binary plus (lines 150-159), \<open>noexcept\<close>. Both temporaries are \<open>int\<close>s; the
  constructor takes them converted to \<open>IntT\<close>.
\<close>

definition plus_r :: "int_type \<Rightarrow> rational \<Rightarrow> rational \<Rightarrow> rational result" where
  "plus_r t lhs rhs = noexcept True (
     seq (arith t (denom lhs * denom rhs)) (\<lambda>dd.
     seq (gcd_r t (denom lhs) (denom rhs)) (\<lambda>g.
     seq (divide_c t dd g) (\<lambda>q.
     let temp_denom = convert (c_int t) q in
     seq (divide_c t temp_denom (denom lhs)) (\<lambda>q1.
     seq (arith t (q1 * num lhs)) (\<lambda>s1.
     seq (divide_c t temp_denom (denom rhs)) (\<lambda>q2.
     seq (arith t (q2 * num rhs)) (\<lambda>s2.
     seq (arith t (s1 + s2)) (\<lambda>s.
     let temp_num = convert (c_int t) s in
     rational_t t (convert t temp_num) (convert t temp_denom))))))))))"

text \<open>Binary minus (lines 162-166), \<open>noexcept\<close>: \<open>operator+(lhs, -rhs)\<close>.\<close>

definition minus_r :: "int_type \<Rightarrow> rational \<Rightarrow> rational \<Rightarrow> rational result" where
  "minus_r t lhs rhs = noexcept True (seq (uminus_r t rhs) (\<lambda>m. plus_r t lhs m))"

text \<open>Multiplication (lines 177-181) and division (lines 192-196), both
  \<open>noexcept\<close>.\<close>

definition times_r :: "int_type \<Rightarrow> rational \<Rightarrow> rational \<Rightarrow> rational result" where
  "times_r t lhs rhs = noexcept True (
     seq (arith t (num lhs * num rhs)) (\<lambda>n.
     seq (arith t (denom lhs * denom rhs)) (\<lambda>d.
     rational_t t (convert t n) (convert t d))))"

definition divide_r :: "int_type \<Rightarrow> rational \<Rightarrow> rational \<Rightarrow> rational result" where
  "divide_r t lhs rhs = noexcept True (
     seq (arith t (num lhs * denom rhs)) (\<lambda>n.
     seq (arith t (denom lhs * num rhs)) (\<lambda>d.
     rational_t t (convert t n) (convert t d))))"

text \<open>\<open>operator<\<close> (lines 206-210) and \<open>operator>\<close> (lines 212-216), both
  \<open>noexcept\<close>.\<close>

definition less_r :: "int_type \<Rightarrow> rational \<Rightarrow> rational \<Rightarrow> bool result" where
  "less_r t lhs rhs = noexcept True (seq (minus_r t lhs rhs) (\<lambda>d. Inr (num d < 0)))"

definition greater_r :: "int_type \<Rightarrow> rational \<Rightarrow> rational \<Rightarrow> bool result" where
  "greater_r t lhs rhs = noexcept True (less_r t rhs lhs)"

text \<open>Reduced form: the invariant of the data model.\<close>

definition reduced :: "rational \<Rightarrow> bool" where
  "reduced r = (0 < denom r \<and> gcd \<bar>num r\<bar> (denom r) = 1)"

text \<open>The rational number a pair stands for.\<close>

definition rat_of :: "rational \<Rightarrow> rat" where
  "rat_of r = Fract (num r) (denom r)"

text \<open>The common denominator \<open>temp_denom\<close> of binary plus, in exact arithmetic.\<close>

definition lcm_denom :: "rational \<Rightarrow> rational \<Rightarrow> int" where
  "lcm_denom a b = denom a * denom b div gcd (denom a) (denom b)"

text \<open>A signed type has at least one bit. A value is negatable in a type when the type
  holds both the value and its negation: in \<open>Signed w\<close> every value but the least.\<close>

fun signed_type :: "int_type \<Rightarrow> bool" where
  "signed_type Exact = True"
| "signed_type (Signed w) = (0 < w)"

definition negatable :: "int_type \<Rightarrow> int \<Rightarrow> bool" where
  "negatable t x = (representable t x \<and> representable t (- x))"

subsection \<open>The failure monad\<close>

lemma seq_Inr [simp]: "seq (Inr x) f = f x"
  by (simp add: seq_def)

lemma seq_Inl [simp]: "seq (Inl e) f = Inl e"
  by (simp add: seq_def)

lemma noexcept_Inr [simp]: "noexcept b (Inr x) = Inr x"
  by (simp add: noexcept_def)

lemma noexcept_Thrown [simp]:
  "noexcept b (Inl (Thrown e)) = (if b then Inl (Terminated e) else Inl (Thrown e))"
  by (simp add: noexcept_def)

lemma noexcept_Terminated [simp]: "noexcept b (Inl (Terminated e)) = Inl (Terminated e)"
  by (simp add: noexcept_def)

lemma noexcept_Undefined [simp]: "noexcept b (Inl Undefined) = Inl Undefined"
  by (simp add: noexcept_def)

subsection \<open>Exact arithmetic\<close>

lemma arith_Exact [simp]: "arith Exact x = Inr x"
  by (simp add: arith_def)

lemma divide_c_Exact [simp]:
  "divide_c Exact x y = (if y = 0 then Inl Undefined else Inr (x sdiv y))"
  by (simp add: divide_c_def)

lemma gcd_r_Exact [simp]: "gcd_r Exact a b = Inr (gcd a b)"
  by (simp add: gcd_r_def std_gcd_def)

lemma negate_Exact [simp]: "negate Exact x = Inr (- x)"
  by (simp add: negate_def)

lemma div_assign_Exact [simp]:
  "div_assign Exact x g = (if g = 0 then Inl Undefined else Inr (x sdiv g))"
  by (simp add: div_assign_def)

lemma sdiv_exact: "g dvd x \<Longrightarrow> x sdiv g = x div (g::int)"
  by (simp add: signed_divide_int_eq_divide_int)

text \<open>In exact arithmetic \<open>check\<close> computes the normal form of the library's
  rational numbers.\<close>

lemma check_Exact:
  assumes "denom r \<noteq> 0"
  shows "check Exact r = Inr \<lparr>num = fst (Rat.normalize (num r, denom r)),
                              denom = snd (Rat.normalize (num r, denom r))\<rparr>"
  using assms
  by (cases r) (auto simp: check_def Rat.normalize_def Let_def sdiv_exact dvd_div_neg)

lemma rational_t_Exact:
  "d \<noteq> 0 \<Longrightarrow> rational_t Exact n d = Inr \<lparr>num = fst (Rat.normalize (n, d)),
                                              denom = snd (Rat.normalize (n, d))\<rparr>"
  by (simp add: rational_t_def check_Exact)

lemma reduced_coprime: "reduced r \<longleftrightarrow> 0 < denom r \<and> coprime (num r) (denom r)"
  by (auto simp: reduced_def coprime_iff_gcd_eq_1)

lemma reduced_denom_nonzero: "reduced r \<Longrightarrow> denom r \<noteq> 0"
  by (simp add: reduced_def)

lemma rational_t_Exact_rat:
  assumes "d \<noteq> 0"
  obtains r where "rational_t Exact n d = Inr r" "reduced r" "rat_of r = Fract n d"
proof -
  obtain p q where pq: "Rat.normalize (n, d) = (p, q)" by (cases "Rat.normalize (n, d)")
  show thesis
  proof (rule that)
    show "rational_t Exact n d = Inr \<lparr>num = p, denom = q\<rparr>"
      using assms pq by (simp add: rational_t_Exact)
    show "reduced \<lparr>num = p, denom = q\<rparr>"
      using normalize_denom_pos [OF pq] normalize_coprime [OF pq]
      by (simp add: reduced_coprime)
    show "rat_of \<lparr>num = p, denom = q\<rparr> = Fract n d"
      using normalize_eq [OF pq] by (simp add: rat_of_def)
  qed
qed

text \<open>Two reduced pairs that stand for the same number are the same pair.\<close>

lemma reduced_rat_inject:
  assumes "reduced a" "reduced b" "rat_of a = rat_of b"
  shows "a = b"
proof -
  have "quotient_of (rat_of a) = (num a, denom a)" "quotient_of (rat_of b) = (num b, denom b)"
    using assms(1,2) by (simp_all add: rat_of_def quotient_of_Fract reduced_coprime)
  with assms(3) show ?thesis by simp
qed

lemma eq_r_rat: "reduced a \<Longrightarrow> reduced b \<Longrightarrow> eq_r a b \<longleftrightarrow> rat_of a = rat_of b"
  using reduced_rat_inject [of a b] by (auto simp: eq_r_def rat_of_def)

lemma rat_of_zero_iff: "denom b \<noteq> 0 \<Longrightarrow> rat_of b = 0 \<longleftrightarrow> num b = 0"
  by (simp add: rat_of_def Fract_of_int_quotient)

lemma rat_of_neg_iff: "0 < denom r \<Longrightarrow> rat_of r < 0 \<longleftrightarrow> num r < 0"
  by (simp add: rat_of_def Fract_of_int_quotient divide_less_0_iff)

lemma lcm_denom_dvd:
  "denom a dvd lcm_denom a b" "denom b dvd lcm_denom a b"
  unfolding lcm_denom_def
  by (metis div_mult_swap dvd_triv_left gcd_dvd2, metis dvd_div_mult dvd_triv_right gcd_dvd1)

lemma lcm_denom_nonzero: "denom a \<noteq> 0 \<Longrightarrow> denom b \<noteq> 0 \<Longrightarrow> lcm_denom a b \<noteq> 0"
  unfolding lcm_denom_def
  by (metis dvd_div_eq_0_iff dvd_mult2 gcd_dvd1 mult_eq_0_iff)

lemma plus_r_Exact_eq:
  assumes "denom a \<noteq> 0" "denom b \<noteq> 0"
  shows "plus_r Exact a b =
    noexcept True (rational_t Exact
      (lcm_denom a b div denom a * num a + lcm_denom a b div denom b * num b) (lcm_denom a b))"
proof -
  have g: "gcd (denom a) (denom b) \<noteq> 0" using assms by simp
  have 1: "denom a * denom b sdiv gcd (denom a) (denom b) = lcm_denom a b"
    by (simp add: lcm_denom_def sdiv_exact)
  show ?thesis
    using assms g by (simp add: plus_r_def 1 Let_def sdiv_exact lcm_denom_dvd)
qed

lemma Fract_lcm_sum:
  assumes "denom a \<noteq> 0" "denom b \<noteq> 0"
  shows "Fract (lcm_denom a b div denom a * num a + lcm_denom a b div denom b * num b)
           (lcm_denom a b) = rat_of a + rat_of b"
proof -
  let ?L = "lcm_denom a b"
  obtain x where x: "?L = denom a * x"
    using lcm_denom_dvd(1) [where a=a and b=b] by (auto elim: dvdE)
  obtain y where y: "?L = denom b * y"
    using lcm_denom_dvd(2) [where a=a and b=b] by (auto elim: dvdE)
  have L: "?L \<noteq> 0" using assms by (rule lcm_denom_nonzero)
  have dx: "?L div denom a = x" using assms x by simp
  have dy: "?L div denom b = y" using assms y by simp
  have "rat_of a + rat_of b = Fract (num a * denom b + num b * denom a) (denom a * denom b)"
    using assms by (simp add: rat_of_def)
  also have "\<dots> = Fract (x * num a + y * num b) ?L"
  proof -
    have "(num a * denom b + num b * denom a) * ?L
          = num a * denom b * ?L + num b * denom a * ?L"
      by (simp add: algebra_simps)
    also have "\<dots> = num a * denom b * (denom a * x) + num b * denom a * (denom b * y)"
      using x y by simp
    also have "\<dots> = (x * num a + y * num b) * (denom a * denom b)"
      by (simp add: algebra_simps)
    finally show ?thesis using assms L by (simp add: eq_rat)
  qed
  finally show ?thesis by (simp add: dx dy)
qed

lemma plus_r_Exact:
  assumes "denom a \<noteq> 0" "denom b \<noteq> 0"
  obtains r where "plus_r Exact a b = Inr r" "reduced r" "rat_of r = rat_of a + rat_of b"
proof -
  let ?n = "lcm_denom a b div denom a * num a + lcm_denom a b div denom b * num b"
  obtain r where r: "rational_t Exact ?n (lcm_denom a b) = Inr r" "reduced r"
     "rat_of r = Fract ?n (lcm_denom a b)"
    using rational_t_Exact_rat [OF lcm_denom_nonzero [OF assms]] by metis
  show thesis
  proof (rule that)
    show "plus_r Exact a b = Inr r" using assms r(1) by (simp add: plus_r_Exact_eq)
    show "reduced r" by (rule r(2))
    show "rat_of r = rat_of a + rat_of b" using r(3) assms by (simp add: Fract_lcm_sum)
  qed
qed

lemma uminus_r_Exact:
  assumes "denom a \<noteq> 0"
  obtains r where "uminus_r Exact a = Inr r" "reduced r" "rat_of r = - rat_of a"
proof -
  obtain r where r: "rational_t Exact (- num a) (denom a) = Inr r" "reduced r"
    "rat_of r = Fract (- num a) (denom a)"
    using rational_t_Exact_rat [OF assms] by metis
  show thesis
    by (rule that [of r]) (use r in \<open>simp_all add: uminus_r_def rat_of_def\<close>)
qed

lemma minus_r_Exact:
  assumes "denom a \<noteq> 0" "denom b \<noteq> 0"
  obtains r where "minus_r Exact a b = Inr r" "reduced r" "rat_of r = rat_of a - rat_of b"
proof -
  obtain m where m: "uminus_r Exact b = Inr m" "reduced m" "rat_of m = - rat_of b"
    using uminus_r_Exact [OF assms(2)] by metis
  obtain r where r: "plus_r Exact a m = Inr r" "reduced r" "rat_of r = rat_of a + rat_of m"
    using plus_r_Exact [OF assms(1) reduced_denom_nonzero [OF m(2)]] by metis
  show thesis
    by (rule that [of r]) (use m r in \<open>simp_all add: minus_r_def\<close>)
qed

lemma times_r_Exact:
  assumes "denom a \<noteq> 0" "denom b \<noteq> 0"
  obtains r where "times_r Exact a b = Inr r" "reduced r" "rat_of r = rat_of a * rat_of b"
proof -
  have nz: "denom a * denom b \<noteq> 0" using assms by simp
  obtain r where r: "rational_t Exact (num a * num b) (denom a * denom b) = Inr r" "reduced r"
    "rat_of r = Fract (num a * num b) (denom a * denom b)"
    using rational_t_Exact_rat [OF nz] by metis
  show thesis
    by (rule that [of r]) (use r assms in \<open>simp_all add: times_r_def rat_of_def\<close>)
qed

lemma divide_r_Exact:
  assumes "denom a \<noteq> 0" "denom b \<noteq> 0" "num b \<noteq> 0"
  obtains r where "divide_r Exact a b = Inr r" "reduced r" "rat_of r = rat_of a / rat_of b"
proof -
  have nz: "denom a * num b \<noteq> 0" using assms by simp
  obtain r where r: "rational_t Exact (num a * denom b) (denom a * num b) = Inr r" "reduced r"
    "rat_of r = Fract (num a * denom b) (denom a * num b)"
    using rational_t_Exact_rat [OF nz] by metis
  show thesis
    by (rule that [of r]) (use r assms in \<open>simp_all add: divide_r_def rat_of_def\<close>)
qed

text \<open>The sign of the normalised difference decides \<open>operator<\<close>.\<close>

lemma less_r_Exact:
  assumes "reduced a" "reduced b"
  shows "less_r Exact a b = Inr (rat_of a < rat_of b)"
proof -
  obtain d where d: "minus_r Exact a b = Inr d" "reduced d" "rat_of d = rat_of a - rat_of b"
    using minus_r_Exact [OF reduced_denom_nonzero [OF assms(1)]
        reduced_denom_nonzero [OF assms(2)]]
    by metis
  have "num d < 0 \<longleftrightarrow> rat_of a < rat_of b"
    using rat_of_neg_iff [of d] d(2,3) by (simp add: reduced_def)
  then show ?thesis by (simp add: less_r_def d(1))
qed

text \<open>Division by a rational whose numerator is zero, in any integer type: the
  constructor throws inside the \<open>noexcept\<close> operator.\<close>

lemma divide_r_zero:
  "num b = 0 \<Longrightarrow> divide_r Exact a b = Inl (Terminated invalid_argument)"
  by (simp add: divide_r_def rational_t_def)

lemma rational_t_zero: "rational_t t n 0 = Inl (Thrown invalid_argument)"
  by (simp add: rational_t_def)

subsection \<open>Machine arithmetic\<close>

lemma convert_representable:
  assumes "0 < w" "representable (Signed w) x"
  shows "convert (Signed w) x = x"
proof -
  have "(2::int) ^ w = 2 * 2 ^ (w - 1)" using assms(1) by (cases w) simp_all
  then have "0 \<le> x + 2 ^ (w - 1)" "x + 2 ^ (w - 1) < 2 ^ w" using assms(2) by simp_all
  then show ?thesis by simp
qed

lemma representable_mono:
  assumes "w \<le> v" "representable (Signed w) x"
  shows "representable (Signed v) x"
proof -
  have "(2::int) ^ (w - 1) \<le> 2 ^ (v - 1)" using assms(1) by (intro power_increasing) auto
  moreover from assms(2) have "- (2 ^ (w - 1)) \<le> x" "x < 2 ^ (w - 1)" by simp_all
  ultimately show ?thesis unfolding representable.simps by linarith
qed

lemma representable_between:
  assumes "representable t a" "representable t b" "a \<le> x" "x \<le> b"
  shows "representable t x"
  using assms by (cases t) auto

lemma negatable_minus: "negatable t x \<Longrightarrow> negatable t (- x)"
  by (simp add: negatable_def)

lemma negatable_abs: "negatable t x \<Longrightarrow> representable t \<bar>x\<bar>"
  by (auto simp: negatable_def abs_if simp del: representable.simps)

lemma arith_narrow:
  assumes "representable (Signed w) x"
  shows "arith (Signed w) x = Inr x"
  using representable_mono [OF _ assms, of "max w 32"] by (simp add: arith_def)

lemma negate_narrow:
  assumes "0 < w" "representable (Signed w) (- x)"
  shows "negate (Signed w) x = Inr (- x)"
  using assms
  by (simp add: negate_def arith_narrow convert_representable
      del: representable.simps convert.simps)

lemma gcd_between: "(a::int) \<noteq> 0 \<or> b \<noteq> 0 \<Longrightarrow> gcd a b \<le> max \<bar>a\<bar> \<bar>b\<bar>"
  by (metis gcd_le1_int gcd_le2_int gcd_abs1_int gcd_abs2_int max.coboundedI1
      max.coboundedI2 zero_less_abs_iff)

lemma gcd_representable:
  assumes "negatable (Signed w) a" "negatable (Signed w) b"
  shows "representable (Signed w) (gcd a b)"
proof (cases "a = 0 \<and> b = 0")
  case True
  then show ?thesis by simp
next
  case False
  then have "gcd a b \<le> max \<bar>a\<bar> \<bar>b\<bar>" by (intro gcd_between) auto
  moreover have "representable (Signed w) (max \<bar>a\<bar> \<bar>b\<bar>)"
    using assms by (simp add: max_def negatable_abs del: representable.simps)
  moreover have "representable (Signed w) 0" by simp
  ultimately show ?thesis by (rule_tac representable_between [of _ 0]) auto
qed

text \<open>For an \<open>IntT\<close> no wider than \<open>int\<close> the greatest common divisor always fits
  the \<open>int\<close> that \<open>rational_t::gcd\<close> returns.\<close>

lemma gcd_fits_int:
  assumes "w \<le> 32" "negatable (Signed w) a" "negatable (Signed w) b"
  shows "representable (c_int (Signed w)) (gcd a b)"
  using representable_mono [OF assms(1) gcd_representable [OF assms(2,3)]] by simp

lemma gcd_r_narrow:
  assumes "negatable (Signed w) a" "negatable (Signed w) b"
    "representable (Signed 32) (gcd a b)"
  shows "gcd_r (Signed w) a b = Inr (gcd a b)"
proof -
  have "convert (Signed 32) (gcd a b) = gcd a b"
    using assms(3) by (intro convert_representable) auto
  then show ?thesis using assms(1,2)
    by (simp add: gcd_r_def std_gcd_def negatable_abs del: representable.simps convert.simps)
qed

lemma sdiv_between:
  assumes "0 < g" "g dvd (x::int)"
  shows "min 0 x \<le> x sdiv g" "x sdiv g \<le> max 0 x"
proof -
  obtain k where k: "x = g * k" using assms(2) by (auto elim: dvdE)
  have e: "x sdiv g = k" using assms k by (simp add: sdiv_exact)
  have d: "x - k = (g - 1) * k" by (simp add: k algebra_simps)
  have "0 \<le> k \<Longrightarrow> 0 \<le> (g - 1) * k" using assms(1) by (intro mult_nonneg_nonneg) auto
  moreover have "k \<le> 0 \<Longrightarrow> (g - 1) * k \<le> 0"
    using assms(1) by (intro mult_nonneg_nonpos) auto
  moreover have "0 \<le> x \<longleftrightarrow> 0 \<le> k" using assms(1) by (auto simp: k zero_le_mult_iff)
  ultimately show "min 0 x \<le> x sdiv g" "x sdiv g \<le> max 0 x"
    unfolding e using d by (auto simp: min_def max_def linorder_not_le)
qed

lemma div_assign_narrow:
  assumes "0 < w" "representable (Signed w) x" "0 < g" "g dvd x"
  shows "div_assign (Signed w) x g = Inr (x sdiv g)"
proof -
  have "representable (Signed w) (min 0 x)" "representable (Signed w) (max 0 x)"
    using assms(2) by (simp_all add: min_def max_def)
  then have "representable (Signed w) (x sdiv g)"
    using sdiv_between [OF assms(3,4)] by (rule representable_between)
  then show ?thesis using assms(1,3)
    by (simp add: div_assign_def divide_c_def arith_narrow convert_representable
        del: representable.simps convert.simps)
qed

lemma check_narrow:
  assumes "0 < w" "negatable (Signed w) (num r)" "negatable (Signed w) (denom r)"
    "denom r \<noteq> 0" "representable (Signed 32) (gcd (num r) (denom r))"
  shows "check (Signed w) r = check Exact r"
proof -
  define r1 where "r1 = (if denom r < 0 then \<lparr>num = - num r, denom = - denom r\<rparr> else r)"
  have n1: "negatable (Signed w) (num r1)" "negatable (Signed w) (denom r1)"
    and d1: "denom r1 \<noteq> 0"
    and g1: "gcd (num r1) (denom r1) = gcd (num r) (denom r)"
    using assms(2,3,4) by (simp_all add: r1_def negatable_minus)
  have neg: "(if denom r < 0
          then seq (negate (Signed w) (denom r)) (\<lambda>d.
               seq (negate (Signed w) (num r)) (\<lambda>n. Inr \<lparr>num = n, denom = d\<rparr>))
          else Inr r) = Inr r1"
    using assms(1,2,3) by (simp add: r1_def negate_narrow negatable_def del: representable.simps)
  have negE: "(if denom r < 0
          then seq (negate Exact (denom r)) (\<lambda>d.
               seq (negate Exact (num r)) (\<lambda>n. Inr \<lparr>num = n, denom = d\<rparr>))
          else Inr r) = Inr r1"
    by (simp add: r1_def)
  have g: "0 < gcd (num r1) (denom r1)" using d1 by simp
  have "gcd_r (Signed w) (num r1) (denom r1) = Inr (gcd (num r1) (denom r1))"
    using n1 assms(5) by (intro gcd_r_narrow) (simp_all only: g1)
  moreover have "div_assign (Signed w) (denom r1) (gcd (num r1) (denom r1))
                 = Inr (denom r1 sdiv gcd (num r1) (denom r1))"
    using assms(1) n1(2) g
    by (intro div_assign_narrow) (auto simp: negatable_def simp del: representable.simps)
  moreover have "div_assign (Signed w) (num r1) (gcd (num r1) (denom r1))
                 = Inr (num r1 sdiv gcd (num r1) (denom r1))"
    using assms(1) n1(1) g
    by (intro div_assign_narrow) (auto simp: negatable_def simp del: representable.simps)
  ultimately show ?thesis using g
    unfolding check_def neg negE by simp
qed

text \<open>Where nothing overflows the machine constructor is the exact one.\<close>

lemma rational_t_narrow:
  assumes "signed_type t" "negatable t n" "negatable t d"
    "representable (c_int t) (gcd n d)"
  shows "rational_t t n d = rational_t Exact n d"
proof (cases t)
  case Exact
  then show ?thesis by simp
next
  case (Signed w)
  then show ?thesis using assms check_narrow [of w "\<lparr>num = n, denom = d\<rparr>"]
    by (simp add: rational_t_def)
qed

text \<open>The \<open>int\<close> that holds the greatest common divisor truncates it for a wider
  \<open>IntT\<close>: \<open>rational_t<long long>(4294967298, 4294967298)\<close> is stored unreduced.\<close>

lemma rational_t_wide_unreduced:
  "rational_t (Signed 64) 4294967298 4294967298
     = Inr \<lparr>num = 2147483649, denom = 2147483649\<rparr>"
proof -
  have g: "gcd (4294967298::int) 4294967298 = 4294967298" by simp
  show ?thesis
    by (simp add: rational_t_def check_def arith_def gcd_r_def std_gcd_def div_assign_def
        divide_c_def signed_divide_int_def g)
qed

subsection \<open>Claims about \<open>rational_t\<close>\<close>

text \<open>
  Claim C1, as the code has it: for a signed \<open>IntT\<close> and every pair
  \<open>(num, denom)\<close> with \<open>denom \<noteq> 0\<close> in which neither value is the least value
  of \<open>IntT\<close> (both can be negated) and whose greatest common divisor fits the
  \<open>int\<close> returned by \<open>rational_t::gcd\<close> (it always does when \<open>IntT\<close> is no
  wider than \<open>int\<close>, see \<open>gcd_fits_int\<close>), the construction succeeds, the stored
  denominator is strictly positive and \<open>gcd(|numerator|, denominator) = 1\<close>; in
  particular \<open>(94, -64)\<close> is stored as \<open>-47 / 32\<close>.
\<close>

theorem rational_t_reduced_form:
  assumes "signed_type t" "negatable t n" "negatable t d" "d \<noteq> 0"
    "representable (c_int t) (gcd n d)"
  shows "(\<exists>r. rational_t t n d = Inr r \<and> 0 < denom r \<and> gcd \<bar>num r\<bar> (denom r) = 1) \<and>
         (n = 94 \<and> d = - 64 \<longrightarrow> rational_t t n d = Inr \<lparr>num = - 47, denom = 32\<rparr>)"
proof
  obtain r where "rational_t Exact n d = Inr r" "reduced r"
    using rational_t_Exact_rat [OF assms(4)] by metis
  then show "\<exists>r. rational_t t n d = Inr r \<and> 0 < denom r \<and> gcd \<bar>num r\<bar> (denom r) = 1"
    using rational_t_narrow [OF assms(1,2,3,5)] by (auto simp: reduced_def)
  have "rational_t Exact 94 (- 64) = Inr \<lparr>num = - 47, denom = 32\<rparr>"
    by code_simp
  then show "n = 94 \<and> d = - 64 \<longrightarrow> rational_t t n d = Inr \<lparr>num = - 47, denom = 32\<rparr>"
    using rational_t_narrow [OF assms(1,2,3,5)] by auto
qed

text \<open>The theorem at \<open>rational_t<char>(94, -64)\<close>, the first line of
  \<open>test_rational\<close>.\<close>

theorem rational_t_reduced_form_witness:
  "signed_type (Signed 8) \<and> negatable (Signed 8) 94 \<and> negatable (Signed 8) (- 64) \<and>
   (- 64 :: int) \<noteq> 0 \<and> representable (c_int (Signed 8)) (gcd 94 (- 64)) \<and>
   (\<exists>r. rational_t (Signed 8) 94 (- 64) = Inr r \<and> 0 < denom r \<and> gcd \<bar>num r\<bar> (denom r) = 1) \<and>
   rational_t (Signed 8) 94 (- 64) = Inr \<lparr>num = - 47, denom = 32\<rparr>"
proof -
  have h: "signed_type (Signed 8)" "negatable (Signed 8) 94" "negatable (Signed 8) (- 64)"
    "(- 64 :: int) \<noteq> 0"
    by (simp_all add: negatable_def)
  have g: "representable (c_int (Signed 8)) (gcd 94 (- 64))"
    using h(2,3) by (intro gcd_fits_int) simp_all
  show ?thesis using h g rational_t_reduced_form [OF h g] by blast
qed

text \<open>
  Claim C1 as stated fails on the least value of the type and on an \<open>IntT\<close> wider
  than \<open>int\<close>: negating the denominator of \<open>rational_t<int>(1, INT_MIN)\<close>
  overflows, and the greatest common divisor of
  \<open>rational_t<long long>(4294967298, 4294967298)\<close> is truncated to the \<open>int\<close> 2,
  which leaves \<open>2147483649 / 2147483649\<close>.
\<close>

theorem rational_t_reduced_form_counterexample:
  "rational_t (Signed 32) 1 (- 2147483648) = Inl Undefined \<and>
   rational_t (Signed 64) 4294967298 4294967298 = Inr \<lparr>num = 2147483649, denom = 2147483649\<rparr> \<and>
   gcd \<bar>2147483649\<bar> 2147483649 \<noteq> (1::int)"
proof -
  have "rational_t (Signed 32) 1 (- 2147483648) = Inl Undefined"
    by (simp add: rational_t_def check_def negate_def arith_def)
  then show ?thesis by (simp add: rational_t_wide_unreduced)
qed

text \<open>
  Claim C7: for all reduced rationals \<open>a\<close> and \<open>b\<close> over exact integers,
  \<open>a + b - b == a\<close>, and \<open>(a * b) / b == a\<close> whenever the numerator of \<open>b\<close> is
  not zero; every operation involved returns a value.
\<close>

theorem rational_arithmetic_closure:
  assumes "reduced a" "reduced b"
  shows "(\<exists>s d. plus_r Exact a b = Inr s \<and> minus_r Exact s b = Inr d \<and> eq_r d a) \<and>
         (num b \<noteq> 0 \<longrightarrow>
           (\<exists>p q. times_r Exact a b = Inr p \<and> divide_r Exact p b = Inr q \<and> eq_r q a))"
proof
  note da = reduced_denom_nonzero [OF assms(1)] and db = reduced_denom_nonzero [OF assms(2)]
  obtain s where s: "plus_r Exact a b = Inr s" "reduced s" "rat_of s = rat_of a + rat_of b"
    using plus_r_Exact [OF da db] by metis
  obtain d where d: "minus_r Exact s b = Inr d" "reduced d" "rat_of d = rat_of s - rat_of b"
    using minus_r_Exact [OF reduced_denom_nonzero [OF s(2)] db] by metis
  have "d = a" using d(2) assms(1) by (rule reduced_rat_inject) (simp add: d(3) s(3))
  then show "\<exists>s d. plus_r Exact a b = Inr s \<and> minus_r Exact s b = Inr d \<and> eq_r d a"
    using s(1) d(1) by (auto simp: eq_r_def)
  show "num b \<noteq> 0 \<longrightarrow>
    (\<exists>p q. times_r Exact a b = Inr p \<and> divide_r Exact p b = Inr q \<and> eq_r q a)"
  proof
    assume nb: "num b \<noteq> 0"
    obtain p where p: "times_r Exact a b = Inr p" "reduced p" "rat_of p = rat_of a * rat_of b"
      using times_r_Exact [OF da db] by metis
    obtain q where q: "divide_r Exact p b = Inr q" "reduced q" "rat_of q = rat_of p / rat_of b"
      using divide_r_Exact [OF reduced_denom_nonzero [OF p(2)] db nb] by metis
    have "rat_of b \<noteq> 0" using nb db by (simp add: rat_of_zero_iff)
    then have "q = a"
      using q(2) assms(1) by (intro reduced_rat_inject) (simp_all add: q(3) p(3))
    then show "\<exists>p q. times_r Exact a b = Inr p \<and> divide_r Exact p b = Inr q \<and> eq_r q a"
      using p(1) q(1) by (auto simp: eq_r_def)
  qed
qed

text \<open>The theorem at \<open>a = 3/2\<close> and \<open>b = -5/4\<close>.\<close>

theorem rational_arithmetic_closure_witness:
  "reduced \<lparr>num = 3, denom = 2\<rparr> \<and> reduced \<lparr>num = - 5, denom = 4\<rparr> \<and>
   num \<lparr>num = - 5, denom = 4\<rparr> \<noteq> 0 \<and>
   (\<exists>s d. plus_r Exact \<lparr>num = 3, denom = 2\<rparr> \<lparr>num = - 5, denom = 4\<rparr> = Inr s \<and>
          minus_r Exact s \<lparr>num = - 5, denom = 4\<rparr> = Inr d \<and> eq_r d \<lparr>num = 3, denom = 2\<rparr>) \<and>
   (\<exists>p q. times_r Exact \<lparr>num = 3, denom = 2\<rparr> \<lparr>num = - 5, denom = 4\<rparr> = Inr p \<and>
          divide_r Exact p \<lparr>num = - 5, denom = 4\<rparr> = Inr q \<and> eq_r q \<lparr>num = 3, denom = 2\<rparr>)"
proof -
  have a: "reduced \<lparr>num = 3, denom = 2\<rparr>" and b: "reduced \<lparr>num = - 5, denom = 4\<rparr>"
    by code_simp+
  show ?thesis using a b rational_arithmetic_closure [OF a b] by simp
qed

text \<open>
  Claim C8: for all reduced rationals \<open>a\<close> and \<open>b\<close> over exact integers, both
  comparisons return, and exactly one of \<open>a < b\<close>, \<open>a == b\<close>, \<open>a > b\<close> holds;
  \<open>less_r\<close> is the sign of the numerator of the normalised difference and \<open>eq_r\<close>
  compares the two fields.
\<close>

theorem rational_trichotomy:
  assumes "reduced a" "reduced b"
  shows "\<exists>lt gt. less_r Exact a b = Inr lt \<and> greater_r Exact a b = Inr gt \<and>
           ((lt \<and> \<not> eq_r a b \<and> \<not> gt) \<or> (\<not> lt \<and> eq_r a b \<and> \<not> gt) \<or>
            (\<not> lt \<and> \<not> eq_r a b \<and> gt))"
  using assms by (auto simp: less_r_Exact greater_r_def eq_r_rat)

text \<open>The theorem at \<open>1/2\<close> and \<open>1/4\<close>, a comparison of \<open>test_rational\<close>.\<close>

theorem rational_trichotomy_witness:
  "reduced \<lparr>num = 1, denom = 2\<rparr> \<and> reduced \<lparr>num = 1, denom = 4\<rparr> \<and>
   (\<exists>lt gt. less_r Exact \<lparr>num = 1, denom = 2\<rparr> \<lparr>num = 1, denom = 4\<rparr> = Inr lt \<and>
            greater_r Exact \<lparr>num = 1, denom = 2\<rparr> \<lparr>num = 1, denom = 4\<rparr> = Inr gt \<and>
            ((lt \<and> \<not> eq_r \<lparr>num = 1, denom = 2\<rparr> \<lparr>num = 1, denom = 4\<rparr> \<and> \<not> gt) \<or>
             (\<not> lt \<and> eq_r \<lparr>num = 1, denom = 2\<rparr> \<lparr>num = 1, denom = 4\<rparr> \<and> \<not> gt) \<or>
             (\<not> lt \<and> \<not> eq_r \<lparr>num = 1, denom = 2\<rparr> \<lparr>num = 1, denom = 4\<rparr> \<and> gt)))"
proof -
  have a: "reduced \<lparr>num = 1, denom = 2\<rparr>" and b: "reduced \<lparr>num = 1, denom = 4\<rparr>"
    by code_simp+
  show ?thesis using a b rational_trichotomy [OF a b] by simp
qed

text \<open>
  Claim C9 at \<open>(1/2) / (0/1)\<close>: the cross-multiplied denominator is \<open>2 * 0 = 0\<close> and
  the constructor raises \<open>invalid_argument\<close>, as the direct construction
  \<open>rational_t(1, 0)\<close> does; but \<open>operator/\<close> is declared \<open>noexcept\<close>, so the
  exception ends in \<open>std::terminate\<close> instead of reaching the caller.
\<close>

theorem divide_by_zero_rational_terminates:
  "divide_r Exact \<lparr>num = 1, denom = 2\<rparr> \<lparr>num = 0, denom = 1\<rparr> = Inl (Terminated invalid_argument) \<and>
   rational_t Exact 1 0 = Inl (Thrown invalid_argument)"
  by (simp add: divide_r_def rational_t_def)

section \<open>\<open>vector.h\<close>: the class template \<open>vector<T, Alloc>\<close>\<close>

subsection \<open>\<open>size_type\<close>\<close>

text \<open>
  \<open>size_type\<close> is \<open>size_t\<close>, an unsigned type of 64 bits: sums and products of
  sizes wrap around modulo \<open>2 ^ 64\<close>. Sizes are natural numbers, and the wrap-around
  is written out wherever the source adds, subtracts or multiplies them. A counter that
  indexes a block on every iteration is checked against the block it indexes, and no
  block has \<open>2 ^ 64\<close> cells, so such a counter steps by \<open>Suc\<close>.
\<close>

definition add_sz :: "nat \<Rightarrow> nat \<Rightarrow> nat" where
  "add_sz a b = (a + b) mod 2 ^ 64"

definition sub_sz :: "nat \<Rightarrow> nat \<Rightarrow> nat" where
  "sub_sz a b = (a + 2 ^ 64 - b mod 2 ^ 64) mod 2 ^ 64"

definition mul_sz :: "nat \<Rightarrow> nat \<Rightarrow> nat" where
  "mul_sz a b = (a * b) mod 2 ^ 64"

text \<open>The enumeration of lines 26-30.\<close>

definition initial_capacity :: nat where
  "initial_capacity = 10"

definition capacity_factor :: nat where
  "capacity_factor = 2"

definition capacity_sanitize_factor :: nat where
  "capacity_sanitize_factor = capacity_factor * 2"

subsection \<open>The allocator and the heap\<close>

text \<open>
  \<open>Alloc\<close> is a template parameter. Of an allocator the model keeps which requests it
  satisfies (\<open>avail a n\<close>: \<open>a.allocate(n)\<close> returns a block of \<open>n\<close> cells; otherwise
  it throws \<open>bad_alloc\<close>, as \<open>std::allocator\<close> does) and whether constructing one
  can throw (the trait \<open>is_nothrow_constructible<allocator_type>\<close> of the exception
  specifications; true for \<open>std::allocator\<close>). The heap records the blocks handed
  out and not yet returned. A block belongs to one vector, so its cells are kept with
  the vector that owns it; a cell is \<open>None\<close> until it is written.
\<close>

type_synonym addr = nat

record allocator =
  avail :: "nat \<Rightarrow> bool"
  nothrow :: bool

record heap =
  live :: "addr set"
  next_addr :: addr

definition a_allocate :: "allocator \<Rightarrow> nat \<Rightarrow> heap \<Rightarrow> (addr \<times> heap) result" where
  "a_allocate a n h =
     (if avail a n
      then Inr (next_addr h, \<lparr>live = insert (next_addr h) (live h), next_addr = Suc (next_addr h)\<rparr>)
      else Inl (Thrown bad_alloc))"

text \<open>Returning a block that is not live is undefined.\<close>

definition a_deallocate :: "addr \<Rightarrow> heap \<Rightarrow> heap result" where
  "a_deallocate p h =
     (if p \<in> live h then Inr \<lparr>live = live h - {p}, next_addr = next_addr h\<rparr>
      else Inl Undefined)"

text \<open>Reading and writing a cell of a block; outside the block, and reading a cell
  never written, is undefined.\<close>

definition rd :: "'a option list \<Rightarrow> nat \<Rightarrow> 'a result" where
  "rd cs i = (if i < length cs then (case cs ! i of None \<Rightarrow> Inl Undefined | Some x \<Rightarrow> Inr x)
              else Inl Undefined)"

definition wr :: "'a option list \<Rightarrow> nat \<Rightarrow> 'a \<Rightarrow> 'a option list result" where
  "wr cs i x = (if i < length cs then Inr (cs[i := Some x]) else Inl Undefined)"

subsection \<open>The class\<close>

text \<open>
  The three pointers of lines 32-34: \<open>start\<close> is the address of the block,
  \<open>finish\<close> and \<open>end_of_storage\<close> are kept as offsets from \<open>start\<close>, and
  \<open>cells\<close> is the content of the block.
\<close>

record 'a vector =
  start :: addr
  finish :: nat
  end_of_storage :: nat
  cells :: "'a option list"

text \<open>\<open>size\<close> (line 105) and \<open>capacity\<close> (lines 116-119).\<close>

definition size_v :: "'a vector \<Rightarrow> nat" where
  "size_v v = finish v"

definition capacity :: "'a vector \<Rightarrow> nat" where
  "capacity v = end_of_storage v"

text \<open>\<open>allocate\<close> (lines 37-40): the null pointer for a request of no cells.\<close>

definition allocate :: "allocator \<Rightarrow> nat \<Rightarrow> heap \<Rightarrow> (addr option \<times> heap) result" where
  "allocate a n h =
     (if n \<noteq> 0 then seq (a_allocate a n h) (\<lambda>(p, h'). Inr (Some p, h')) else Inr (None, h))"

text \<open>\<open>deallocate\<close> (lines 42-45) and the destructor (lines 232-235).\<close>

definition deallocate :: "'a vector \<Rightarrow> heap \<Rightarrow> heap result" where
  "deallocate v h = a_deallocate (start v) h"

definition destroy :: "'a vector \<Rightarrow> heap \<Rightarrow> heap result" where
  "destroy v h = deallocate v h"

text \<open>\<open>create_storage\<close> (lines 47-56).\<close>

definition create_storage :: "allocator \<Rightarrow> nat \<Rightarrow> heap \<Rightarrow> ('a vector \<times> heap) result" where
  "create_storage a cap h =
     seq (allocate a cap h) (\<lambda>(p, h').
       case p of
         None \<Rightarrow> Inl (Thrown bad_alloc)
       | Some s \<Rightarrow> Inr (\<lparr>start = s, finish = 0, end_of_storage = cap,
                         cells = replicate cap None\<rparr>, h'))"

text \<open>\<open>assign_content(a_size, value)\<close> (lines 58-63).\<close>

function fill :: "'a option list \<Rightarrow> nat \<Rightarrow> nat \<Rightarrow> 'a \<Rightarrow> 'a option list result" where
  "fill cs p fin x =
     (if p \<noteq> fin
      then (if p < length cs then fill (cs[p := Some x]) (Suc p) fin x else Inl Undefined)
      else Inr cs)"
  by pat_completeness auto
termination
  by (relation "measure (\<lambda>(cs, p, fin, x). length cs - p)") auto

definition assign_content_value :: "'a vector \<Rightarrow> nat \<Rightarrow> 'a \<Rightarrow> 'a vector result" where
  "assign_content_value v a_size x =
     seq (fill (cells v) 0 a_size x) (\<lambda>cs. Inr (v\<lparr>finish := a_size, cells := cs\<rparr>))"

text \<open>\<open>assign_content(size, from, to)\<close> (lines 65-72): the loop, on the cells of
  \<open>to\<close> and the cells \<open>from\<close> points to.\<close>

function copy_loop ::
  "'a option list \<Rightarrow> 'a option list \<Rightarrow> nat \<Rightarrow> nat \<Rightarrow> 'a option list result" where
  "copy_loop to_p from_p it n =
     (if it \<noteq> n
      then (case rd from_p it of
              Inl e \<Rightarrow> Inl e
            | Inr x \<Rightarrow> if it < length to_p
                       then copy_loop (to_p[it := Some x]) from_p (Suc it) n
                       else Inl Undefined)
      else Inr to_p)"
  by pat_completeness auto
termination
  by (relation "measure (\<lambda>(to_p, from_p, it, n). length to_p - it)") auto

text \<open>With \<open>to\<close> left at its default, the block of the vector itself.\<close>

definition assign_content_ptr :: "'a vector \<Rightarrow> nat \<Rightarrow> 'a option list \<Rightarrow> 'a vector result" where
  "assign_content_ptr v n from_p =
     seq (copy_loop (cells v) from_p 0 n) (\<lambda>cs. Inr (v\<lparr>finish := n, cells := cs\<rparr>))"

text \<open>\<open>assign_content(initializer_list)\<close> (lines 74-81).\<close>

fun put_list :: "'a option list \<Rightarrow> nat \<Rightarrow> 'a list \<Rightarrow> 'a option list result" where
  "put_list cs p [] = Inr cs"
| "put_list cs p (x # xs) =
     (if p < length cs then put_list (cs[p := Some x]) (Suc p) xs else Inl Undefined)"

definition assign_content_list :: "'a vector \<Rightarrow> 'a list \<Rightarrow> 'a vector result" where
  "assign_content_list v xs =
     seq (put_list (cells v) 0 xs) (\<lambda>cs. Inr (v\<lparr>finish := length xs, cells := cs\<rparr>))"

text \<open>\<open>move_content\<close> (lines 88-94): the pointers of \<open>vec\<close> are taken over and
  \<open>vec\<close> gets a fresh block. The result is the new \<open>*this\<close>, the new \<open>vec\<close> and
  the heap.\<close>

definition move_content ::
  "allocator \<Rightarrow> 'a vector \<Rightarrow> heap \<Rightarrow> ('a vector \<times> 'a vector \<times> heap) result" where
  "move_content a vec h =
     seq (create_storage a initial_capacity h) (\<lambda>(vec', h'). Inr (vec, vec', h'))"

text \<open>The constructors: default (lines 130-134), size (143-147), size and value
  (156-160), size and pointer (167-173; \<open>None\<close> is the null pointer), copy (183-188),
  move (197-201; the block it creates first is lost when \<open>move_content\<close> overwrites
  \<open>start\<close>) and initializer list (210-215).\<close>

definition vector_default :: "allocator \<Rightarrow> heap \<Rightarrow> ('a vector \<times> heap) result" where
  "vector_default a h = noexcept (nothrow a) (create_storage a initial_capacity h)"

definition vector_n :: "allocator \<Rightarrow> 'a \<Rightarrow> nat \<Rightarrow> heap \<Rightarrow> ('a vector \<times> heap) result" where
  "vector_n a value_type n h =
     seq (create_storage a (mul_sz n capacity_factor) h) (\<lambda>(v, h').
     seq (assign_content_value v n value_type) (\<lambda>v'. Inr (v', h')))"

definition vector_fill :: "allocator \<Rightarrow> nat \<Rightarrow> 'a \<Rightarrow> heap \<Rightarrow> ('a vector \<times> heap) result" where
  "vector_fill a n x h =
     seq (create_storage a (mul_sz n capacity_factor) h) (\<lambda>(v, h').
     seq (assign_content_value v n x) (\<lambda>v'. Inr (v', h')))"

definition vector_ptr ::
  "allocator \<Rightarrow> nat \<Rightarrow> 'a option list option \<Rightarrow> heap \<Rightarrow> ('a vector \<times> heap) result" where
  "vector_ptr a n p h =
     (case p of
        None \<Rightarrow> Inl (Thrown invalid_argument)
      | Some from_p \<Rightarrow>
          if n = 0 then Inl (Thrown invalid_argument)
          else seq (create_storage a (mul_sz n capacity_factor) h) (\<lambda>(v, h').
               seq (assign_content_ptr v n from_p) (\<lambda>v'. Inr (v', h'))))"

definition vector_copy :: "allocator \<Rightarrow> 'a vector \<Rightarrow> heap \<Rightarrow> ('a vector \<times> heap) result" where
  "vector_copy a vec h = noexcept (nothrow a) (
     seq (create_storage a (mul_sz (size_v vec) capacity_factor) h) (\<lambda>(v, h').
     seq (assign_content_ptr v (size_v vec) (cells vec)) (\<lambda>v'. Inr (v', h'))))"

definition vector_move ::
  "allocator \<Rightarrow> 'a vector \<Rightarrow> heap \<Rightarrow> ('a vector \<times> 'a vector \<times> heap) result" where
  "vector_move a other h = noexcept True (
     seq (create_storage a (mul_sz (size_v other) capacity_factor) h) (\<lambda>(v :: 'a vector, h').
     move_content a other h'))"

definition vector_list :: "allocator \<Rightarrow> 'a list \<Rightarrow> heap \<Rightarrow> ('a vector \<times> heap) result" where
  "vector_list a xs h = noexcept (nothrow a) (
     seq (create_storage a (mul_sz (length xs) capacity_factor) h) (\<lambda>(v, h').
     seq (assign_content_list v xs) (\<lambda>v'. Inr (v', h'))))"

text \<open>Move assignment (lines 221-230), \<open>noexcept\<close>; the two vectors are different
  objects wherever the class uses it.\<close>

definition move_assign ::
  "allocator \<Rightarrow> 'a vector \<Rightarrow> 'a vector \<Rightarrow> heap \<Rightarrow> ('a vector \<times> 'a vector \<times> heap) result" where
  "move_assign a this other h = noexcept True (
     seq (deallocate this h) (\<lambda>h'. move_content a other h'))"

text \<open>\<open>clear\<close> (lines 242-246).\<close>

definition clear :: "allocator \<Rightarrow> 'a vector \<Rightarrow> heap \<Rightarrow> ('a vector \<times> heap) result" where
  "clear a v h = seq (deallocate v h) (\<lambda>h'. create_storage a initial_capacity h')"

text \<open>
  \<open>reserve\<close> (lines 256-272). \<open>allocate\<close> is called with a capacity that is not 0,
  so \<open>temp\<close> is not null; the assignment of \<open>finish\<close> inside \<open>assign_content\<close>
  is overwritten at line 270.
\<close>

definition reserve ::
  "allocator \<Rightarrow> nat \<Rightarrow> 'a vector \<Rightarrow> heap \<Rightarrow> ('a vector \<times> heap) result" where
  "reserve a new_capacity v h =
     (if new_capacity = 0 then clear a v h
      else if new_capacity = capacity v then Inr (v, h)
      else seq (allocate a new_capacity h) (\<lambda>(temp, h1).
           case temp of
             None \<Rightarrow> Inl Undefined
           | Some t \<Rightarrow>
               let new_size = (if new_capacity < size_v v then new_capacity else size_v v) in
               seq (copy_loop (replicate new_capacity None) (cells v) 0 new_size) (\<lambda>cs.
               seq (deallocate v h1) (\<lambda>h2.
               Inr (\<lparr>start = t, finish = new_size, end_of_storage = new_capacity,
                     cells = cs\<rparr>, h2)))))"

text \<open>\<open>sanitize\<close> (lines 96-100) and \<open>shrink_to_fit\<close> (line 278).\<close>

definition sanitize :: "allocator \<Rightarrow> 'a vector \<Rightarrow> heap \<Rightarrow> ('a vector \<times> heap) result" where
  "sanitize a v h =
     (if capacity v > mul_sz (size_v v) capacity_sanitize_factor
      then reserve a (mul_sz (size_v v) capacity_factor) v h
      else Inr (v, h))"

definition shrink_to_fit :: "allocator \<Rightarrow> 'a vector \<Rightarrow> heap \<Rightarrow> ('a vector \<times> heap) result" where
  "shrink_to_fit a v h = reserve a (size_v v) v h"

text \<open>\<open>erase\<close> (lines 321-335): the loop returns the cells and the final \<open>pos\<close>.\<close>

function erase_loop ::
  "'a option list \<Rightarrow> nat \<Rightarrow> nat \<Rightarrow> nat \<Rightarrow> ('a option list \<times> nat) result" where
  "erase_loop cs pos len sz =
     (if add_sz pos len < sz
      then (case rd cs (add_sz pos len) of
              Inl e \<Rightarrow> Inl e
            | Inr x \<Rightarrow> if pos < length cs
                       then erase_loop (cs[pos := Some x]) (Suc pos) len sz
                       else Inl Undefined)
      else Inr (cs, pos))"
  by pat_completeness auto
termination
  by (relation "measure (\<lambda>(cs, pos, len, sz). length cs - pos)") auto

definition erase ::
  "allocator \<Rightarrow> nat \<Rightarrow> nat \<Rightarrow> 'a vector \<Rightarrow> heap \<Rightarrow> ('a vector \<times> heap) result" where
  "erase a pos len v h =
     (if pos > size_v v then Inr (v, h)
      else let len' = (if len = 0 then size_v v else len) in
           seq (erase_loop (cells v) pos len' (size_v v)) (\<lambda>(cs, pos').
           sanitize a (v\<lparr>finish := pos', cells := cs\<rparr>) h))"

text \<open>\<open>pop_back\<close> (lines 342-348) and \<open>push_back\<close> (lines 358-363).\<close>

definition pop_back :: "allocator \<Rightarrow> 'a vector \<Rightarrow> heap \<Rightarrow> ('a vector \<times> heap) result" where
  "pop_back a v h =
     (if size_v v > 0 then sanitize a (v\<lparr>finish := finish v - 1\<rparr>) h else Inr (v, h))"

definition push_back ::
  "allocator \<Rightarrow> 'a \<Rightarrow> 'a vector \<Rightarrow> heap \<Rightarrow> ('a vector \<times> heap) result" where
  "push_back a element v h =
     seq (if capacity v < add_sz (size_v v) 1
          then reserve a (mul_sz (add_sz (size_v v) 1) capacity_factor) v h
          else Inr (v, h)) (\<lambda>(v1, h1).
     seq (wr (cells v1) (finish v1) element) (\<lambda>cs.
     Inr (v1\<lparr>finish := Suc (finish v1), cells := cs\<rparr>, h1)))"

text \<open>\<open>operator[]\<close> (lines 424-428), read through the reference it returns and
  written through it.\<close>

definition index :: "'a vector \<Rightarrow> nat \<Rightarrow> 'a result" where
  "index v pos = (if pos \<ge> size_v v then Inl (Thrown out_of_range) else rd (cells v) pos)"

definition index_assign :: "'a vector \<Rightarrow> nat \<Rightarrow> 'a \<Rightarrow> 'a vector result" where
  "index_assign v pos x =
     (if pos \<ge> size_v v then Inl (Thrown out_of_range)
      else seq (wr (cells v) pos x) (\<lambda>cs. Inr (v\<lparr>cells := cs\<rparr>)))"

text \<open>
  The \<open>const\<close> overload (lines 429-432). Its body is the call \<open>operator [](pos)\<close>
  on a \<open>const\<close> object, for which overload resolution selects the \<open>const\<close>
  overload again: the function calls itself. Not returning is the value \<open>None\<close>.
\<close>

partial_function (option) index_const :: "'a vector \<Rightarrow> nat \<Rightarrow> 'a result option" where
  "index_const v pos = index_const v pos"

text \<open>
  A \<open>const_pointer\<close> handed to a member function. \<open>Into b k\<close> points at cell \<open>k\<close>
  of the block \<open>b\<close> of the allocator; \<open>Elsewhere cs\<close> points to the cells \<open>cs\<close> of
  memory that the call neither writes nor returns (an array, the block of another
  vector). The cells of a block are kept with the vector that owns it, so \<open>p[j]\<close> for
  \<open>p = Into b k\<close> is read from the cells of the vector as they are at that moment,
  and only while \<open>b\<close> is its block and is live: a pointer into a block that has been
  returned is dangling, and reading through it is undefined. The constructor from a
  pointer and \<open>reserve\<close> copy into a block they have just allocated and write
  nothing else, so what they read is not changed meanwhile and their sources are
  given by their cells.
\<close>

datatype 'a pointer = Into addr nat | Elsewhere "'a option list"

definition deref :: "'a pointer \<Rightarrow> nat \<Rightarrow> addr \<Rightarrow> 'a option list \<Rightarrow> heap \<Rightarrow> 'a result" where
  "deref p j b cs h =
     (case p of
        Elsewhere ps \<Rightarrow> rd ps j
      | Into b' k \<Rightarrow> if b' = b \<and> b' \<in> live h then rd cs (k + j) else Inl Undefined)"

text \<open>
  \<open>data()\<close> (lines 438-439) of the vector \<open>p\<close> that is an argument of a member
  function of \<open>this\<close>. Every vector owns a block of its own, so \<open>p\<close> is the object
  \<open>this\<close> exactly when the two have the same block.
\<close>

definition data :: "'a vector \<Rightarrow> 'a vector \<Rightarrow> 'a pointer" where
  "data p this = (if start p = start this then Into (start this) 0 else Elsewhere (cells p))"

text \<open>
  \<open>insert(pos, p, p_size)\<close> (lines 375-397). Lines 377-381 save the tail in
  \<open>temp\<close>: the temporary \<open>vector(size() - pos, start + pos)\<close> is built, moved into
  \<open>temp\<close> and destroyed. The loop of lines 389-390 reads \<open>p[j]\<close> after the writes
  to \<open>start[i]\<close> that precede it, and after the \<open>reserve\<close> of line 386.
\<close>

definition save_tail ::
  "allocator \<Rightarrow> nat \<Rightarrow> 'a vector \<Rightarrow> heap \<Rightarrow> (nat \<times> 'a vector \<times> heap) result" where
  "save_tail a pos v h =
     seq (vector_default a h) (\<lambda>(temp, h1).
     if pos \<ge> size_v v then Inr (size_v v, temp, h1)
     else seq (vector_ptr a (sub_sz (size_v v) pos) (Some (drop pos (cells v))) h1) (\<lambda>(tmp, h2).
          seq (move_assign a temp tmp h2) (\<lambda>(temp', tmp', h3).
          seq (destroy tmp' h3) (\<lambda>h4. Inr (pos, temp', h4)))))"

function insert_new ::
  "'a option list \<Rightarrow> addr \<Rightarrow> heap \<Rightarrow> 'a pointer \<Rightarrow> nat \<Rightarrow> nat \<Rightarrow> nat
     \<Rightarrow> ('a option list \<times> nat) result" where
  "insert_new cs b h p i j p_size =
     (if j \<noteq> p_size
      then (case deref p j b cs h of
              Inl e \<Rightarrow> Inl e
            | Inr x \<Rightarrow> if i < length cs
                       then insert_new (cs[i := Some x]) b h p (Suc i) (Suc j) p_size
                       else Inl Undefined)
      else Inr (cs, i))"
  by pat_completeness auto
termination
  by (relation "measure (\<lambda>(cs, b, h, p, i, j, p_size). length cs - i)") auto

function insert_tail ::
  "'a option list \<Rightarrow> 'a vector \<Rightarrow> nat \<Rightarrow> nat \<Rightarrow> 'a option list result" where
  "insert_tail cs temp i j =
     (if j \<noteq> size_v temp
      then (case index temp j of
              Inl e \<Rightarrow> Inl e
            | Inr x \<Rightarrow> if i < length cs
                       then insert_tail (cs[i := Some x]) temp (Suc i) (Suc j)
                       else Inl Undefined)
      else Inr cs)"
  by pat_completeness auto
termination
  by (relation "measure (\<lambda>(cs, temp, i, j). length cs - i)") auto

definition insert_ptr ::
  "allocator \<Rightarrow> nat \<Rightarrow> 'a pointer \<Rightarrow> nat \<Rightarrow> 'a vector \<Rightarrow> heap
     \<Rightarrow> ('a vector \<times> heap) result" where
  "insert_ptr a pos p p_size v h =
     seq (save_tail a pos v h) (\<lambda>(pos, temp, h1).
     let res_size = add_sz (size_v v) p_size in
     seq (if capacity v < res_size
          then reserve a (mul_sz res_size capacity_factor) v h1
          else Inr (v, h1)) (\<lambda>(v1, h2).
     seq (insert_new (cells v1) (start v1) h2 p pos 0 p_size) (\<lambda>(cs, i).
     seq (if pos \<noteq> size_v v1 then insert_tail cs temp i 0 else Inr cs) (\<lambda>cs'.
     seq (destroy temp h2) (\<lambda>h3.
     Inr (v1\<lparr>finish := res_size, cells := cs'\<rparr>, h3))))))"

text \<open>\<open>insert(pos, p, inserted_size)\<close> for a vector \<open>p\<close> (lines 398-404) and
  \<open>insert(pos, value)\<close> (lines 412-415), which inserts the temporary
  \<open>vector{value}\<close>.\<close>

definition insert_vector ::
  "allocator \<Rightarrow> nat \<Rightarrow> 'a vector \<Rightarrow> nat \<Rightarrow> 'a vector \<Rightarrow> heap \<Rightarrow> ('a vector \<times> heap) result" where
  "insert_vector a pos p inserted_size v h =
     insert_ptr a pos (data p v) (if inserted_size = 0 then size_v p else inserted_size) v h"

definition insert_value ::
  "allocator \<Rightarrow> nat \<Rightarrow> 'a \<Rightarrow> 'a vector \<Rightarrow> heap \<Rightarrow> ('a vector \<times> heap) result" where
  "insert_value a pos x v h =
     seq (vector_list a [x] h) (\<lambda>(tmp, h1).
     seq (insert_vector a pos tmp 0 v h1) (\<lambda>(v', h2).
     seq (destroy tmp h2) (\<lambda>h3. Inr (v', h3))))"

subsection \<open>The data model\<close>

text \<open>The logical contents: the first \<open>size\<close> cells.\<close>

definition contents :: "'a vector \<Rightarrow> 'a list" where
  "contents v = map the (take (finish v) (cells v))"

text \<open>
  Sequences of the four mutating operations, run on the class; \<open>Insert pos xs\<close>
  is \<open>insert(pos, p, count)\<close> for a buffer \<open>p\<close> outside the block of the vector
  that holds the \<open>count\<close> elements \<open>xs\<close>.
\<close>

datatype 'a operation = Push_back 'a | Pop_back | Insert nat "'a list" | Erase nat nat

fun apply_operation ::
  "allocator \<Rightarrow> 'a operation \<Rightarrow> 'a vector \<Rightarrow> heap \<Rightarrow> ('a vector \<times> heap) result" where
  "apply_operation a (Push_back x) v h = push_back a x v h"
| "apply_operation a Pop_back v h = pop_back a v h"
| "apply_operation a (Insert pos xs) v h =
     insert_ptr a pos (Elsewhere (map Some xs)) (length xs) v h"
| "apply_operation a (Erase pos len) v h = erase a pos len v h"

fun run ::
  "allocator \<Rightarrow> 'a operation list \<Rightarrow> 'a vector \<Rightarrow> heap \<Rightarrow> ('a vector \<times> heap) result" where
  "run a [] v h = Inr (v, h)"
| "run a (x # xs) v h =
     (case apply_operation a x v h of Inl e \<Rightarrow> Inl e | Inr (v', h') \<Rightarrow> run a xs v' h')"

text \<open>
  The logical contents the specification prescribes for an operation (section 4.1:
  \<open>push_back\<close> appends; \<open>pop_back\<close> is a no-op if empty and otherwise drops the
  last element; \<open>insert\<close> appends if \<open>pos \<ge> size\<close> and otherwise puts the new
  elements before the tail that starts at \<open>pos\<close>; \<open>erase\<close> is a no-op if
  \<open>pos > size\<close>, erases to the end if \<open>len = 0\<close>, and otherwise removes the
  overlap of \<open>[pos, pos + len)\<close> with the contents).
\<close>

fun prescribed_operation :: "'a operation \<Rightarrow> 'a list \<Rightarrow> 'a list" where
  "prescribed_operation (Push_back x) xs = xs @ [x]"
| "prescribed_operation Pop_back xs = butlast xs"
| "prescribed_operation (Insert pos ys) xs =
     (if pos \<ge> length xs then xs @ ys else take pos xs @ ys @ drop pos xs)"
| "prescribed_operation (Erase pos len) xs =
     (if pos > length xs then xs
      else if len = 0 then take pos xs
      else take pos xs @ drop (pos + len) xs)"

definition prescribed :: "'a operation list \<Rightarrow> 'a list \<Rightarrow> 'a list" where
  "prescribed ops xs = fold prescribed_operation ops xs"

text \<open>
  The invariant of the data model: the block has \<open>capacity\<close> cells,
  \<open>0 \<le> size \<le> capacity\<close>, the capacity is positive and below \<open>2 ^ 62\<close>,
  and the first \<open>size\<close> cells have been written. The vector owns its block: the
  block is live, and every live block was handed out before \<open>next_addr\<close>.
\<close>

definition heap_ok :: "heap \<Rightarrow> bool" where
  "heap_ok h = (\<forall>p\<in>live h. p < next_addr h)"

definition valid :: "'a vector \<Rightarrow> bool" where
  "valid v = (length (cells v) = end_of_storage v \<and> finish v \<le> end_of_storage v \<and>
              0 < end_of_storage v \<and> end_of_storage v < 2 ^ 62 \<and>
              None \<notin> set (take (finish v) (cells v)))"

definition well_formed :: "'a vector \<Rightarrow> heap \<Rightarrow> bool" where
  "well_formed v h = (valid v \<and> start v \<in> live h \<and> heap_ok h)"

text \<open>
  Two assumptions on allocators. No allocator hands out a block of \<open>2 ^ 62\<close> cells
  or more (\<open>bounded\<close>), so the sizes of the blocks that exist do not wrap around; and
  an allocator is \<open>roomy\<close> up to \<open>m\<close> when it satisfies every request of at most
  \<open>m\<close> cells.
\<close>

definition bounded :: "allocator \<Rightarrow> bool" where
  "bounded a = (\<forall>n. avail a n \<longrightarrow> n < 2 ^ 62)"

definition roomy :: "allocator \<Rightarrow> nat \<Rightarrow> bool" where
  "roomy a m = (\<forall>n. 0 < n \<and> n \<le> m \<longrightarrow> avail a n)"

text \<open>
  Two measures of an operation: the number of elements it adds (\<open>growth\<close>), which
  bounds the blocks a sequence of operations asks for, and whether the sum
  \<open>pos + len\<close> that \<open>erase\<close> computes stays in \<open>size_type\<close> (\<open>in_range\<close>).
\<close>

fun growth :: "'a operation \<Rightarrow> nat" where
  "growth (Push_back x) = 1"
| "growth Pop_back = 0"
| "growth (Insert pos xs) = length xs"
| "growth (Erase pos len) = 0"

fun in_range :: "'a operation \<Rightarrow> bool" where
  "in_range (Erase pos len) = (pos + len < 2 ^ 64)"
| "in_range (Push_back x) = True"
| "in_range Pop_back = True"
| "in_range (Insert pos xs) = True"


subsection \<open>Sizes, cells and the loops\<close>

lemma add_sz_small: "a + b < 2 ^ 64 \<Longrightarrow> add_sz a b = a + b"
  by (simp add: add_sz_def)

lemma mul_sz_small: "a * b < 2 ^ 64 \<Longrightarrow> mul_sz a b = a * b"
  by (simp add: mul_sz_def)

lemma sub_mod_small:
  fixes a b M :: nat
  assumes "b \<le> a" "a < M"
  shows "(a + M - b mod M) mod M = a - b"
proof -
  have "b mod M = b" using assms by simp
  moreover have "a + M - b = (a - b) + M" using assms(1) by simp
  moreover have "((a - b) + M) mod M = a - b" using assms(2) by simp
  ultimately show ?thesis by (simp only:)
qed

lemma sub_sz_small: "b \<le> a \<Longrightarrow> a < 2 ^ 64 \<Longrightarrow> sub_sz a b = a - b"
  unfolding sub_sz_def by (rule sub_mod_small)

lemma list_update_Cons_numeral:
  "(x # xs)[numeral k := y] = x # xs[pred_numeral k := y]"
  by (simp add: numeral_eq_Suc)

lemma rd_Some: "i < length cs \<Longrightarrow> cs ! i = Some x \<Longrightarrow> rd cs i = Inr x"
  by (simp add: rd_def)

lemma rd_init:
  assumes "i < n" "n \<le> length cs" "None \<notin> set (take n cs)"
  shows "rd cs i = Inr (the (cs ! i))" "cs ! i = Some (the (cs ! i))"
proof -
  have "take n cs ! i \<in> set (take n cs)" using assms(1,2) by (intro nth_mem) simp
  then have "cs ! i \<noteq> None" using assms by (metis nth_take)
  then show "cs ! i = Some (the (cs ! i))" by simp
  then show "rd cs i = Inr (the (cs ! i))" using assms(1,2) by (auto simp: rd_def split: option.splits)
qed

lemma create_storage_eq:
  "create_storage a cap h =
     (if cap \<noteq> 0 \<and> avail a cap
      then Inr (\<lparr>start = next_addr h, finish = 0, end_of_storage = cap, cells = replicate cap None\<rparr>,
                \<lparr>live = insert (next_addr h) (live h), next_addr = Suc (next_addr h)\<rparr>)
      else Inl (Thrown bad_alloc))"
  by (simp add: create_storage_def allocate_def a_allocate_def)

declare fill.simps [simp del] copy_loop.simps [simp del] insert_new.simps [simp del]
  insert_tail.simps [simp del] erase_loop.simps [simp del]

lemma copy_loop_eq:
  assumes "it \<le> n" "n \<le> length to_p" "n \<le> length from_p" "None \<notin> set (take n from_p)"
  shows "copy_loop to_p from_p it n = Inr (take it to_p @ take (n - it) (drop it from_p) @ drop n to_p)"
  using assms
proof (induction to_p from_p it n rule: copy_loop.induct)
  case (1 to_p from_p it n)
  show ?case
  proof (cases "it = n")
    case True
    then show ?thesis by (subst copy_loop.simps) simp
  next
    case False
    then have lt: "it < n" using "1.prems"(1) by simp
    have r: "rd from_p it = Inr (the (from_p ! it))" and s: "from_p ! it = Some (the (from_p ! it))"
      using rd_init [OF lt "1.prems"(3,4)] by auto
    have il: "it < length to_p" using lt "1.prems"(2) by simp
    have "copy_loop to_p from_p it n = copy_loop (to_p[it := Some (the (from_p ! it))]) from_p (Suc it) n"
      using False r il by (subst copy_loop.simps) simp
    also have "\<dots> = Inr (take (Suc it) (to_p[it := from_p ! it]) @ take (n - Suc it) (drop (Suc it) from_p) @ drop n (to_p[it := from_p ! it]))"
      using "1.IH" [OF False r il] lt "1.prems" s by simp
    also have "take (Suc it) (to_p[it := from_p ! it]) = take it to_p @ [from_p ! it]"
      using il by (simp add: take_Suc_conv_app_nth)
    also have "drop n (to_p[it := from_p ! it]) = drop n to_p" using lt by simp
    also have "(take it to_p @ [from_p ! it]) @ take (n - Suc it) (drop (Suc it) from_p) @ drop n to_p
        = take it to_p @ take (n - it) (drop it from_p) @ drop n to_p"
    proof -
      have "drop it from_p = from_p ! it # drop (Suc it) from_p"
        using lt "1.prems"(3) by (simp add: Cons_nth_drop_Suc)
      moreover have "n - it = Suc (n - Suc it)" using lt by simp
      ultimately show ?thesis by simp
    qed
    finally show ?thesis .
  qed
qed

lemma put_list_eq:
  assumes "p + length xs \<le> length cs"
  shows "put_list cs p xs = Inr (take p cs @ map Some xs @ drop (p + length xs) cs)"
  using assms
proof (induction xs arbitrary: cs p)
  case Nil
  then show ?case by simp
next
  case (Cons x xs)
  have pl: "p < length cs" using Cons.prems by simp
  have "put_list cs p (x # xs) = put_list (cs[p := Some x]) (Suc p) xs" using pl by simp
  also have "\<dots> = Inr (take (Suc p) (cs[p := Some x]) @ map Some xs @ drop (Suc p + length xs) (cs[p := Some x]))"
    using Cons.prems by (intro Cons.IH) simp
  also have "take (Suc p) (cs[p := Some x]) = take p cs @ [Some x]"
    using pl by (simp add: take_Suc_conv_app_nth)
  also have "drop (Suc p + length xs) (cs[p := Some x]) = drop (p + length (x # xs)) cs" by simp
  finally show ?case by simp
qed

lemma fill_eq:
  assumes "p \<le> fin" "fin \<le> length cs"
  shows "fill cs p fin x = Inr (take p cs @ replicate (fin - p) (Some x) @ drop fin cs)"
  using assms
proof (induction cs p fin x rule: fill.induct)
  case (1 cs p fin x)
  show ?case
  proof (cases "p = fin")
    case True
    then show ?thesis by (subst fill.simps) simp
  next
    case False
    then have lt: "p < fin" using "1.prems"(1) by simp
    have pl: "p < length cs" using lt "1.prems"(2) by simp
    have "fill cs p fin x = fill (cs[p := Some x]) (Suc p) fin x"
      using False pl by (subst fill.simps) simp
    also have "\<dots> = Inr (take (Suc p) (cs[p := Some x]) @ replicate (fin - Suc p) (Some x) @ drop fin (cs[p := Some x]))"
      using "1.IH" [OF False pl] lt "1.prems" by simp
    also have "take (Suc p) (cs[p := Some x]) = take p cs @ [Some x]"
      using pl by (simp add: take_Suc_conv_app_nth)
    also have "drop fin (cs[p := Some x]) = drop fin cs" using lt by simp
    also have "(take p cs @ [Some x]) @ replicate (fin - Suc p) (Some x) @ drop fin cs
        = take p cs @ replicate (fin - p) (Some x) @ drop fin cs"
    proof -
      have "fin - p = Suc (fin - Suc p)" using lt by simp
      then show ?thesis by simp
    qed
    finally show ?thesis .
  qed
qed

lemma deref_Elsewhere [simp]: "deref (Elsewhere p) j b cs h = rd p j"
  by (simp add: deref_def)

lemma insert_new_Elsewhere:
  assumes "q = Elsewhere p" "j \<le> n" "n \<le> length p" "None \<notin> set (take n p)"
    "i + (n - j) \<le> length cs"
  shows "insert_new cs b h q i j n = Inr (take i cs @ take (n - j) (drop j p) @ drop (i + (n - j)) cs, i + (n - j))"
  using assms
proof (induction cs b h q i j n rule: insert_new.induct)
  case (1 cs b h q i j n)
  note q = "1.prems"(1)
  show ?case
  proof (cases "j = n")
    case True
    then show ?thesis by (subst insert_new.simps) simp
  next
    case False
    then have lt: "j < n" using "1.prems"(2) by simp
    then obtain m where m: "n = Suc (j + m)" using less_imp_Suc_add by blast
    have r: "rd p j = Inr (the (p ! j))" and s: "p ! j = Some (the (p ! j))"
      using rd_init [OF lt "1.prems"(3,4)] by auto
    have r': "deref q j b cs h = Inr (the (p ! j))" using r q by simp
    have il: "i < length cs" using lt "1.prems"(5) by simp
    have d: "drop j p = p ! j # drop (Suc j) p"
      using lt "1.prems"(3) by (simp add: Cons_nth_drop_Suc)
    have "insert_new cs b h q i j n = insert_new (cs[i := Some (the (p ! j))]) b h q (Suc i) (Suc j) n"
      using False r' il by (subst insert_new.simps) simp
    also have "\<dots> = Inr (take (Suc i) (cs[i := p ! j]) @ take (n - Suc j) (drop (Suc j) p) @ drop (Suc i + (n - Suc j)) (cs[i := p ! j]), Suc i + (n - Suc j))"
      using "1.IH" [OF False r' il q] lt "1.prems" s by simp
    also have "\<dots> = Inr (take i cs @ take (n - j) (drop j p) @ drop (i + (n - j)) cs, i + (n - j))"
      using il by (simp add: m d take_Suc_conv_app_nth)
    finally show ?thesis .
  qed
qed

lemma insert_new_eq:
  assumes "j \<le> n" "n \<le> length p" "None \<notin> set (take n p)" "i + (n - j) \<le> length cs"
  shows "insert_new cs b h (Elsewhere p) i j n = Inr (take i cs @ take (n - j) (drop j p) @ drop (i + (n - j)) cs, i + (n - j))"
  using refl assms by (rule insert_new_Elsewhere)

lemma index_init:
  assumes "j < size_v temp" "valid temp"
  shows "index temp j = Inr (the (cells temp ! j))" "cells temp ! j = Some (the (cells temp ! j))"
  using assms rd_init [of j "finish temp" "cells temp"]
  by (auto simp: index_def size_v_def valid_def)

lemma insert_tail_eq:
  assumes "j \<le> size_v temp" "valid temp" "i + (size_v temp - j) \<le> length cs"
  shows "insert_tail cs temp i j = Inr (take i cs @ take (size_v temp - j) (drop j (cells temp)) @ drop (i + (size_v temp - j)) cs)"
  using assms
proof (induction cs temp i j rule: insert_tail.induct)
  case (1 cs temp i j)
  let ?n = "size_v temp" and ?p = "cells temp"
  show ?case
  proof (cases "j = ?n")
    case True
    then show ?thesis by (subst insert_tail.simps) simp
  next
    case False
    then have lt: "j < ?n" using "1.prems"(1) by simp
    then obtain m where m: "?n = Suc (j + m)" using less_imp_Suc_add by blast
    have r: "index temp j = Inr (the (?p ! j))" and s: "?p ! j = Some (the (?p ! j))"
      using index_init [OF lt "1.prems"(2)] by auto
    have il: "i < length cs" using lt "1.prems"(3) by simp
    have pl: "?n \<le> length ?p" using "1.prems"(2) by (simp add: valid_def size_v_def)
    have d: "drop j ?p = ?p ! j # drop (Suc j) ?p"
      using lt pl by (simp add: Cons_nth_drop_Suc)
    have "insert_tail cs temp i j = insert_tail (cs[i := Some (the (?p ! j))]) temp (Suc i) (Suc j)"
      using False r il by (subst insert_tail.simps) simp
    also have "\<dots> = Inr (take (Suc i) (cs[i := ?p ! j]) @ take (?n - Suc j) (drop (Suc j) ?p) @ drop (Suc i + (?n - Suc j)) (cs[i := ?p ! j]))"
      using "1.IH" [OF False r il] lt "1.prems" s by simp
    also have "\<dots> = Inr (take i cs @ take (?n - j) (drop j ?p) @ drop (i + (?n - j)) cs)"
      using il by (simp add: m d take_Suc_conv_app_nth)
    finally show ?thesis .
  qed
qed

lemma no_None_update:
  assumes "None \<notin> set (take n cs)"
  shows "None \<notin> set (take n (cs[i := Some x]))"
proof -
  have "set ((take n cs)[i := Some x]) \<subseteq> insert (Some x) (set (take n cs))"
    by (rule set_update_subset_insert)
  then show ?thesis using assms by (auto simp: take_update_swap)
qed

lemma erase_loop_eq:
  assumes "0 < len" "pos + len < 2 ^ 64" "sz \<le> length cs" "sz < 2 ^ 64"
    "None \<notin> set (take sz cs)"
  shows "erase_loop cs pos len sz =
    Inr (take pos cs @ take (sz - (pos + len)) (drop (pos + len) cs) @ drop (pos + (sz - (pos + len))) cs,
         pos + (sz - (pos + len)))"
  using assms
proof (induction cs pos len sz rule: erase_loop.induct)
  case (1 cs pos len sz)
  have a: "add_sz pos len = pos + len" using "1.prems"(2) by (rule add_sz_small)
  show ?case
  proof (cases "pos + len < sz")
    case False
    then show ?thesis using a by (subst erase_loop.simps) simp
  next
    case True
    then obtain k where k: "sz = Suc (pos + len + k)" using less_imp_Suc_add by blast
    let ?x = "cs ! (pos + len)"
    have r: "rd cs (pos + len) = Inr (the ?x)" and s: "?x = Some (the ?x)"
      using rd_init [OF True "1.prems"(3,5)] by auto
    have pl: "pos < length cs" using True "1.prems"(3) by simp
    have b: "Suc pos + len < 2 ^ 64" using True "1.prems"(4) by simp
    have d: "drop (pos + len) cs = ?x # drop (Suc (pos + len)) cs"
      using True "1.prems"(3) by (simp add: Cons_nth_drop_Suc)
    have "erase_loop cs pos len sz = erase_loop (cs[pos := Some (the ?x)]) (Suc pos) len sz"
      using True a r pl by (subst erase_loop.simps) simp
    also have "\<dots> = Inr (take (Suc pos) (cs[pos := ?x]) @
          take (sz - (Suc pos + len)) (drop (Suc pos + len) (cs[pos := ?x])) @
          drop (Suc pos + (sz - (Suc pos + len))) (cs[pos := ?x]),
         Suc pos + (sz - (Suc pos + len)))"
    proof -
      have T: "add_sz pos len < sz" and r': "rd cs (add_sz pos len) = Inr (the ?x)"
        using True r a by simp_all
      show ?thesis
        using "1.IH" [OF T r' pl "1.prems"(1) b] "1.prems"(3,4)
          no_None_update [OF "1.prems"(5), of pos "the ?x"] s
        by simp
    qed
    also have "\<dots> = Inr (take pos cs @ take (sz - (pos + len)) (drop (pos + len) cs) @
          drop (pos + (sz - (pos + len))) cs, pos + (sz - (pos + len)))"
      using pl "1.prems"(1) by (simp add: k d take_Suc_conv_app_nth)
    finally show ?thesis .
  qed
qed

subsection \<open>Storage management\<close>

lemma clear_eq:
  assumes "start v \<in> live h"
  shows "clear a v h =
     (if avail a 10
      then Inr (\<lparr>start = next_addr h, finish = 0, end_of_storage = 10, cells = replicate 10 None\<rparr>,
                \<lparr>live = insert (next_addr h) (live h - {start v}), next_addr = Suc (next_addr h)\<rparr>)
      else Inl (Thrown bad_alloc))"
  using assms
  by (simp add: clear_def deallocate_def a_deallocate_def create_storage_eq initial_capacity_def)

lemma reserve_eq:
  assumes "valid v" "start v \<in> live h" "n \<noteq> 0" "n \<noteq> capacity v"
  shows "reserve a n v h =
     (if avail a n
      then Inr (\<lparr>start = next_addr h, finish = min n (finish v), end_of_storage = n,
                 cells = take (min n (finish v)) (cells v) @ replicate (n - min n (finish v)) None\<rparr>,
                \<lparr>live = insert (next_addr h) (live h) - {start v}, next_addr = Suc (next_addr h)\<rparr>)
      else Inl (Thrown bad_alloc))"
proof (cases "avail a n")
  case False
  then show ?thesis using assms(3,4) by (simp add: reserve_def allocate_def a_allocate_def)
next
  case True
  let ?m = "min n (finish v)"
  have m: "(if n < size_v v then n else size_v v) = ?m" by (simp add: size_v_def min_def)
  have nn: "None \<notin> set (take ?m (cells v))"
    using assms(1) by (auto simp: valid_def min_def dest: in_set_takeD set_take_subset_set_take [THEN subsetD, rotated])
  have "copy_loop (replicate n None) (cells v) 0 ?m
          = Inr (take 0 (replicate n None) @ take (?m - 0) (drop 0 (cells v)) @ drop ?m (replicate n None))"
    using assms(1) nn by (intro copy_loop_eq) (auto simp: valid_def)
  then have c: "copy_loop (replicate n None) (cells v) 0 ?m
          = Inr (take ?m (cells v) @ replicate (n - ?m) None)" by simp
  show ?thesis using True assms(2,3,4)
    by (simp add: reserve_def allocate_def a_allocate_def m c deallocate_def a_deallocate_def Let_def)
qed

lemma contents_simp [simp]:
  "contents \<lparr>start = s, finish = f, end_of_storage = e, cells = cs\<rparr> = map the (take f cs)"
  by (simp add: contents_def)

lemma size_v_simp [simp]: "size_v \<lparr>start = s, finish = f, end_of_storage = e, cells = cs\<rparr> = f"
  by (simp add: size_v_def)

lemma capacity_simp [simp]: "capacity \<lparr>start = s, finish = f, end_of_storage = e, cells = cs\<rparr> = e"
  by (simp add: capacity_def)

lemma length_contents: "valid v \<Longrightarrow> length (contents v) = size_v v"
  by (simp add: contents_def valid_def size_v_def)

lemma heap_ok_fresh: "heap_ok h \<Longrightarrow> p \<in> live h \<Longrightarrow> p \<noteq> next_addr h"
  by (auto simp: heap_ok_def)

lemma valid_reserved:
  assumes "valid v" "n \<noteq> 0" "n < 2 ^ 62"
  shows "valid \<lparr>start = s, finish = min n (finish v), end_of_storage = n,
     cells = take (min n (finish v)) (cells v) @ replicate (n - min n (finish v)) None\<rparr>"
proof -
  have "set (take (min n (finish v)) (cells v)) \<subseteq> set (take (finish v) (cells v))"
    by (rule set_take_subset_set_take) simp
  then show ?thesis using assms by (auto simp: valid_def)
qed

lemma valid_fresh: "0 < n \<Longrightarrow> n < 2 ^ 62 \<Longrightarrow>
   valid \<lparr>start = s, finish = 0, end_of_storage = n, cells = replicate n None\<rparr>"
  by (simp add: valid_def)

text \<open>\<open>reserve\<close> and \<open>clear\<close> where the allocation succeeds: the result, and the
  blocks that are live afterwards.\<close>

lemma reserve_total:
  assumes "well_formed v h" "n \<noteq> 0" "n \<noteq> capacity v" "avail a n"
  obtains v' h' where "reserve a n v h = Inr (v', h')" "capacity v' = n"
    "size_v v' = min n (size_v v)" "contents v' = take n (contents v)"
    "start v \<notin> live h'" "start v' \<in> live h'" "live h' - {start v'} = live h - {start v}"
    "heap_ok h'" "n < 2 ^ 62 \<Longrightarrow> valid v'" "start v' = next_addr h" "next_addr h' = Suc (next_addr h)"
proof -
  let ?v = "\<lparr>start = next_addr h, finish = min n (finish v), end_of_storage = n,
                 cells = take (min n (finish v)) (cells v) @ replicate (n - min n (finish v)) None\<rparr>"
  let ?h = "\<lparr>live = insert (next_addr h) (live h) - {start v}, next_addr = Suc (next_addr h)\<rparr>"
  have v: "valid v" and l: "start v \<in> live h" and ok: "heap_ok h" using assms(1) by (simp_all add: well_formed_def)
  have ne: "start v \<noteq> next_addr h" using ok l by (rule heap_ok_fresh)
  have fr: "next_addr h \<notin> live h" using ok by (auto simp: heap_ok_def)
  show thesis
  proof (rule that [of ?v ?h])
    show "reserve a n v h = Inr (?v, ?h)" using reserve_eq [OF v l assms(2,3)] assms(4) by simp
    show "contents ?v = take n (contents v)"
      using v by (auto simp: contents_def take_map min_def valid_def)
    show "live ?h - {start ?v} = live h - {start v}" using fr by auto
    show "heap_ok ?h" using ok by (auto simp: heap_ok_def less_Suc_eq)
    show "n < 2 ^ 62 \<Longrightarrow> valid ?v" using v assms(2) by (rule valid_reserved)
  qed (use ne in \<open>simp_all add: size_v_def\<close>)
qed

lemma clear_total:
  assumes "start v \<in> live h" "heap_ok h" "avail a 10"
  obtains v' h' where "clear a v h = Inr (v', h')" "capacity v' = 10" "size_v v' = 0" "contents v' = []"
    "start v \<notin> live h'" "start v' \<in> live h'" "live h' - {start v'} = live h - {start v}"
    "heap_ok h'" "valid v'" "start v' = next_addr h" "next_addr h' = Suc (next_addr h)"
proof -
  let ?v = "\<lparr>start = next_addr h, finish = 0, end_of_storage = 10, cells = replicate 10 None\<rparr> :: 'a vector"
  let ?h = "\<lparr>live = insert (next_addr h) (live h - {start v}), next_addr = Suc (next_addr h)\<rparr>"
  have ne: "start v \<noteq> next_addr h" using assms(2,1) by (rule heap_ok_fresh)
  have fr: "next_addr h \<notin> live h" using assms(2) by (auto simp: heap_ok_def)
  show thesis
  proof (rule that [of ?v ?h])
    show "clear a v h = Inr (?v, ?h)" using clear_eq [OF assms(1)] assms(3) by simp
    show "live ?h - {start ?v} = live h - {start v}" using fr by auto
    show "heap_ok ?h" using assms(2) by (auto simp: heap_ok_def less_Suc_eq)
    show "valid ?v" by (simp add: valid_def)
  qed (use ne in \<open>simp_all\<close>)
qed

subsection \<open>Element access\<close>

lemma index_const_Some_False:
  assumes "index_const v pos = Some r"
  shows False
  by (rule index_const.raw_induct [where P = "\<lambda>_ _ _. False", OF _ assms]) blast

text \<open>The overload of \<open>operator[]\<close> that is not \<open>const\<close> checks the index
  against the size and returns the element at that position.\<close>

lemma index_eq:
  assumes "valid v"
  shows "index v pos =
    (if pos \<ge> size_v v then Inl (Thrown out_of_range) else Inr (contents v ! pos))"
proof (cases "pos \<ge> size_v v")
  case True
  then show ?thesis by (simp add: index_def)
next
  case False
  then have lt: "pos < size_v v" by simp
  have "index v pos = Inr (the (cells v ! pos))" using index_init(1) [OF lt assms] .
  moreover have "contents v ! pos = the (cells v ! pos)"
    using lt assms by (simp add: contents_def size_v_def valid_def)
  ultimately show ?thesis using False by simp
qed

lemma well_formed_capacity_pos: "well_formed v h \<Longrightarrow> capacity v \<noteq> 0"
  by (simp add: well_formed_def valid_def capacity_def)

subsection \<open>Insertion\<close>

lemma deallocate_eq:
  "start v \<in> live h \<Longrightarrow> deallocate v h = Inr \<lparr>live = live h - {start v}, next_addr = next_addr h\<rparr>"
  by (simp add: deallocate_def a_deallocate_def)

lemma roomy_avail: "roomy a m \<Longrightarrow> 0 < n \<Longrightarrow> n \<le> m \<Longrightarrow> avail a n"
  by (simp add: roomy_def)

lemma bounded_avail: "bounded a \<Longrightarrow> avail a n \<Longrightarrow> n < 2 ^ 62"
  by (simp add: bounded_def)

lemma valid_size_le: "valid v \<Longrightarrow> size_v v \<le> length (cells v)"
  by (simp add: valid_def size_v_def)

lemma valid_size_bound: "valid v \<Longrightarrow> size_v v < 2 ^ 62"
  by (simp add: valid_def size_v_def)

lemma valid_init: "valid v \<Longrightarrow> None \<notin> set (take (size_v v) (cells v))"
  by (simp add: valid_def size_v_def)

lemma no_None_take_le:
  assumes "None \<notin> set (take n cs)" "m \<le> n"
  shows "None \<notin> set (take m cs)"
  using set_take_subset_set_take [OF assms(2), of cs] assms(1) by auto

lemma no_None_take_drop:
  assumes "None \<notin> set (take n cs)"
  shows "None \<notin> set (take (n - k) (drop k cs))"
proof -
  have "take (n - k) (drop k cs) = drop k (take n cs)" by (simp add: drop_take)
  then show ?thesis using assms by (auto dest: in_set_dropD)
qed

text \<open>Lines 377-381 of \<open>insert\<close>: the tail is saved in \<open>temp\<close>, in a block of its own.\<close>

lemma save_tail_total:
  assumes "well_formed v h" "bounded a" "avail a 10"
    "pos < size_v v \<Longrightarrow> avail a (2 * (size_v v - pos))"
  obtains temp h' where
    "save_tail a pos v h = Inr (min pos (size_v v), temp, h')"
    "valid temp" "size_v temp = size_v v - pos"
    "contents temp = drop pos (contents v)"
    "start temp \<notin> live h" "live h' = insert (start temp) (live h)" "heap_ok h'"
proof (cases "pos < size_v v")
  case False
  let ?t = "\<lparr>start = next_addr h, finish = 0, end_of_storage = 10, cells = replicate 10 None\<rparr> :: 'a vector"
  let ?h = "\<lparr>live = insert (next_addr h) (live h), next_addr = Suc (next_addr h)\<rparr>"
  have ok: "heap_ok h" using assms(1) by (simp add: well_formed_def)
  have v: "valid v" using assms(1) by (simp add: well_formed_def)
  show ?thesis
  proof (rule that [of ?t ?h])
    show "save_tail a pos v h = Inr (min pos (size_v v), ?t, ?h)"
      using False assms(3)
      by (simp add: save_tail_def vector_default_def create_storage_eq initial_capacity_def min_def)
    show "valid ?t" by (simp add: valid_def)
    show "contents ?t = drop pos (contents v)" using False v by (simp add: length_contents)
    show "start ?t \<notin> live h" using ok by (auto simp: heap_ok_def)
    show "heap_ok ?h" using ok by (auto simp: heap_ok_def less_Suc_eq)
  qed (use False in simp_all)
next
  case True
  let ?n = "size_v v - pos"
  let ?k = "next_addr h"
  let ?cs = "take ?n (drop pos (cells v)) @ replicate ?n None"
  let ?t = "\<lparr>start = Suc ?k, finish = ?n, end_of_storage = 2 * ?n, cells = ?cs\<rparr>"
  let ?h = "\<lparr>live = insert (Suc ?k) (live h), next_addr = Suc (Suc (Suc ?k))\<rparr>"
  have ok: "heap_ok h" and v: "valid v" using assms(1) by (simp_all add: well_formed_def)
  have av: "avail a (2 * ?n)" using assms(4) True by simp
  have n2: "2 * ?n < 2 ^ 62" using bounded_avail [OF assms(2) av] .
  have m: "mul_sz ?n capacity_factor = 2 * ?n" "sub_sz (size_v v) pos = ?n"
    using n2 True valid_size_bound [OF v]
    by (simp_all add: mul_sz_small capacity_factor_def sub_sz_small)
  have nn: "None \<notin> set (take ?n (drop pos (cells v)))"
    using valid_init [OF v] by (rule no_None_take_drop)
  have "copy_loop (replicate (2 * ?n) None) (drop pos (cells v)) 0 ?n
      = Inr (take 0 (replicate (2 * ?n) None) @ take (?n - 0) (drop 0 (drop pos (cells v))) @ drop ?n (replicate (2 * ?n) None))"
    using valid_size_le [OF v] nn by (intro copy_loop_eq) simp_all
  then have c: "copy_loop (replicate (2 * ?n) None) (drop pos (cells v)) 0 ?n = Inr ?cs"
    by simp
  have fr: "?k \<notin> live h" "Suc ?k \<notin> live h" "Suc (Suc ?k) \<notin> live h"
    using ok by (auto simp: heap_ok_def)
  show ?thesis
  proof (rule that [of ?t ?h])
    show "save_tail a pos v h = Inr (min pos (size_v v), ?t, ?h)"
      using True assms(3) av fr
      by (auto simp add: save_tail_def vector_default_def create_storage_eq initial_capacity_def
          vector_ptr_def m assign_content_ptr_def c move_assign_def deallocate_eq
          move_content_def destroy_def min_def)
    show "valid ?t" using n2 True nn valid_size_le [OF v] by (simp add: valid_def min_def, arith)
    show "contents ?t = drop pos (contents v)"
      using valid_size_le [OF v] True
      by (simp add: contents_def drop_map drop_take size_v_def min_def)
    show "start ?t \<notin> live h" using fr by simp
    show "heap_ok ?h" using ok by (auto simp: heap_ok_def less_Suc_eq)
  qed simp_all
qed

text \<open>The tail saved at position 1 of a vector that starts with 1, 2, 3, in a heap
  that holds only its block.\<close>

lemma save_tail_example:
  fixes rest :: "int option list"
  shows "save_tail \<lparr>avail = (\<lambda>n. n \<le> 1000), nothrow = True\<rparr> 1
     \<lparr>start = 0, finish = 3, end_of_storage = c, cells = Some 1 # Some 2 # Some 3 # rest\<rparr>
     \<lparr>live = {0}, next_addr = 1\<rparr>
   = Inr (1, \<lparr>start = 2, finish = 2, end_of_storage = 4, cells = [Some 2, Some 3, None, None]\<rparr>,
      \<lparr>live = {0, 2}, next_addr = 4\<rparr>)"
proof -
  have s: "sub_sz 3 (Suc 0) = 2" by (simp add: sub_sz_small)
  have m: "mul_sz 2 capacity_factor = 4" by (simp add: mul_sz_def capacity_factor_def)
  have r: "replicate 4 None = [None, None, None, None :: int option]"
    by (simp add: numeral_eq_Suc)
  have c: "copy_loop [None, None, None, None] (Some 2 # Some 3 # rest) 0 2
     = Inr [Some 2, Some 3, None, None]"
    by (simp add: copy_loop.simps rd_def numeral_2_eq_2)
  show ?thesis
    by (simp add: save_tail_def vector_default_def create_storage_eq initial_capacity_def
        vector_ptr_def s m r assign_content_ptr_def c move_assign_def move_content_def
        destroy_def deallocate_def a_deallocate_def)
      (auto simp: numeral_2_eq_2)
qed

text \<open>The growth step of \<open>push_back\<close> and \<open>insert\<close>.\<close>

lemma grow_total:
  assumes "well_formed v h" "bounded a" "capacity v < res \<Longrightarrow> avail a (2 * res)"
  obtains v1 h1 where
    "(if capacity v < res then reserve a (2 * res) v h else Inr (v, h)) = Inr (v1, h1)"
    "well_formed v1 h1" "size_v v1 = size_v v" "contents v1 = contents v"
    "res \<le> capacity v1" "live h1 - {start v1} = live h - {start v}"
    "capacity v1 = (if capacity v < res then 2 * res else capacity v)"
proof (cases "capacity v < res")
  case False
  show ?thesis by (rule that [of v h]) (use False assms(1) in simp_all)
next
  case True
  have v: "valid v" using assms(1) by (simp add: well_formed_def)
  have av: "avail a (2 * res)" using assms(3) True by simp
  obtain v' h' where r: "reserve a (2 * res) v h = Inr (v', h')" "capacity v' = 2 * res"
    "size_v v' = min (2 * res) (size_v v)" "contents v' = take (2 * res) (contents v)"
    "start v' \<in> live h'" "live h' - {start v'} = live h - {start v}"
    "heap_ok h'" "2 * res < 2 ^ 62 \<Longrightarrow> valid v'"
  proof -
    have nz: "2 * res \<noteq> 0" and nc: "2 * res \<noteq> capacity v" using True by simp_all
    show ?thesis using reserve_total [OF assms(1) nz nc av] that by metis
  qed
  have le: "size_v v \<le> 2 * res" using True v by (simp add: valid_def size_v_def capacity_def)
  show ?thesis
  proof (rule that [of v' h'])
    show "well_formed v' h'" using r(5,7,8) bounded_avail [OF assms(2) av] by (simp add: well_formed_def)
    show "size_v v' = size_v v" using r(3) le by simp
    show "contents v' = contents v" using r(4) le v by (simp add: length_contents)
  qed (use True r in simp_all)
qed

lemma well_formed_frame:
  assumes "well_formed v h" "heap_ok h'" "start v \<in> live h'"
  shows "well_formed v h'"
  using assms by (simp add: well_formed_def)

lemma take_two_parts: "length a = i \<Longrightarrow> length b = j \<Longrightarrow> take (i + j) (a @ b @ c) = a @ b"
  by simp

lemma insert_ptr_total:
  assumes wf: "well_formed v h" and b: "bounded a"
    and r: "roomy a (max 10 (2 * (size_v v + n)))"
    and p: "n \<le> length p" "None \<notin> set (take n p)"
  obtains v' h' where "insert_ptr a pos (Elsewhere p) n v h = Inr (v', h')"
    "contents v' = take pos (contents v) @ map the (take n p) @ drop pos (contents v)"
    "size_v v' = size_v v + n" "well_formed v' h'"
    "live h' - {start v'} = live h - {start v}"
    "capacity v' = (if capacity v < size_v v + n then 2 * (size_v v + n) else capacity v)"
proof -
  let ?sz = "size_v v"
  let ?res = "?sz + n"
  let ?pos = "min pos ?sz"
  have v: "valid v" and ok: "heap_ok h" and sl: "start v \<in> live h"
    using wf by (simp_all add: well_formed_def)
  have a10: "avail a 10" using r by (rule roomy_avail) simp_all
  have at: "pos < ?sz \<Longrightarrow> avail a (2 * (?sz - pos))"
    using r by (rule roomy_avail) simp_all
  have cpos: "0 < capacity v" using v by (simp add: valid_def capacity_def)
  have ar: "capacity v < ?res \<Longrightarrow> avail a (2 * ?res)"
  proof -
    assume "capacity v < ?res"
    then have "0 < 2 * ?res" using cpos by arith
    moreover have "2 * ?res \<le> max 10 (2 * ?res)" by simp
    ultimately show ?thesis using r roomy_avail by blast
  qed
  have res_small: "?res < 2 ^ 62"
  proof (cases "capacity v < ?res")
    case True
    then show ?thesis using bounded_avail [OF b ar] by simp
  next
    case False
    then show ?thesis using v by (simp add: valid_def capacity_def)
  qed
  have e1: "add_sz ?sz n = ?res" using res_small by (simp add: add_sz_small)
  have e2: "mul_sz ?res capacity_factor = 2 * ?res"
    using res_small by (simp add: mul_sz_small capacity_factor_def)
  obtain temp h1 where t: "save_tail a pos v h = Inr (?pos, temp, h1)"
    "valid temp" "size_v temp = ?sz - pos" "contents temp = drop pos (contents v)"
    "start temp \<notin> live h" "live h1 = insert (start temp) (live h)" "heap_ok h1"
    by (rule save_tail_total [OF wf b a10 at])
  have wf1: "well_formed v h1" using wf t(7) by (rule well_formed_frame) (simp add: t(6) sl)
  obtain v1 h2 where g:
    "(if capacity v < ?res then reserve a (2 * ?res) v h1 else Inr (v, h1)) = Inr (v1, h2)"
    "well_formed v1 h2" "size_v v1 = ?sz" "contents v1 = contents v"
    "?res \<le> capacity v1" "live h2 - {start v1} = live h1 - {start v}"
    "capacity v1 = (if capacity v < ?res then 2 * ?res else capacity v)"
    by (rule grow_total [OF wf1 b ar])
  have v1: "valid v1" and ok2: "heap_ok h2" and sl1: "start v1 \<in> live h2"
    using g(2) by (simp_all add: well_formed_def)
  let ?c1 = "cells v1"
  have len1: "length ?c1 = capacity v1" using v1 by (simp add: valid_def capacity_def)
  have tl: "start temp \<in> live h2" "start temp \<noteq> start v1"
  proof -
    have "start temp \<in> live h1 - {start v}" using t(5,6) sl by auto
    then have "start temp \<in> live h2 - {start v1}" using g(6) by simp
    then show "start temp \<in> live h2" "start temp \<noteq> start v1" by auto
  qed
  have pl: "?pos + n \<le> length ?c1" using g(5) len1 by simp
  define cs where "cs = take ?pos ?c1 @ take n p @ drop (?pos + n) ?c1"
  have "insert_new ?c1 (start v1) h2 (Elsewhere p) ?pos 0 n
       = Inr (take ?pos ?c1 @ take (n - 0) (drop 0 p) @ drop (?pos + (n - 0)) ?c1, ?pos + (n - 0))"
    using p pl by (intro insert_new_eq) simp_all
  then have l1: "insert_new ?c1 (start v1) h2 (Elsewhere p) ?pos 0 n = Inr (cs, ?pos + n)"
    by (simp add: cs_def)
  have lcs: "length cs = length ?c1" using pl p(1) by (simp add: cs_def)
  define cs' where "cs' = (if pos < ?sz
     then take (pos + n) cs @ take (?sz - pos) (cells temp) @ drop ?res cs else cs)"
  have l2: "(if ?pos \<noteq> size_v v1 then insert_tail cs temp (?pos + n) 0 else Inr cs) = Inr cs'"
  proof (cases "pos < ?sz")
    case False
    then show ?thesis using g(3) by (simp add: min_def cs'_def)
  next
    case True
    have "insert_tail cs temp (pos + n) 0
       = Inr (take (pos + n) cs @ take (size_v temp - 0) (drop 0 (cells temp))
              @ drop (pos + n + (size_v temp - 0)) cs)"
      using t(2,3) True g(5) len1 lcs by (intro insert_tail_eq) simp_all
    moreover have "pos + n + (?sz - pos) = ?res" using True by simp
    ultimately show ?thesis using True g(3) t(3) by (simp add: min_def cs'_def)
  qed
  let ?v' = "v1\<lparr>finish := ?res, cells := cs'\<rparr>"
  let ?h' = "\<lparr>live = live h2 - {start temp}, next_addr = next_addr h2\<rparr>"
  have fin: "insert_ptr a pos (Elsewhere p) n v h = Inr (?v', ?h')"
    by (simp only: insert_ptr_def t(1) seq_Inr prod.case Let_def e1 e2 g(1) l1 l2
        destroy_def deallocate_eq [OF tl(1)])
  have sz1: "?sz \<le> length ?c1" using valid_size_le [OF v1] g(3) by simp
  have c1: "map the (take ?sz ?c1) = contents v" using g(3,4) by (simp add: contents_def size_v_def)
  have n1: "None \<notin> set (take ?sz ?c1)" using valid_init [OF v1] g(3) by simp
  have tk: "take ?res cs' = take pos (take ?sz ?c1) @ take n p @ take (?sz - pos) (cells temp)"
  proof (cases "pos < ?sz")
    case False
    then show ?thesis using sz1 p(1) by (simp add: min_def cs'_def cs_def)
  next
    case True
    have lt: "length (cells temp) \<ge> ?sz - pos" using valid_size_le [OF t(2)] t(3) by simp
    have mp: "?pos = pos" using True by simp
    have "take (pos + n) cs = take pos ?c1 @ take n p"
      unfolding cs_def mp using True sz1 p(1) by (intro take_two_parts) simp_all
    moreover have "take ((pos + n) + (?sz - pos)) cs'
        = take (pos + n) cs @ take (?sz - pos) (cells temp)"
      unfolding cs'_def if_P [OF True] using lt pl lcs True
      by (intro take_two_parts) simp_all
    moreover have "(pos + n) + (?sz - pos) = ?res" using True by simp
    moreover have "take pos (take ?sz ?c1) = take pos ?c1" using True by (simp add: min_def)
    ultimately show ?thesis by simp
  qed
  have ct: "map the (take (?sz - pos) (cells temp)) = drop pos (contents v)"
    using t(3,4) by (simp add: contents_def size_v_def)
  have nt: "None \<notin> set (take (?sz - pos) (cells temp))" using valid_init [OF t(2)] t(3) by simp
  have np: "None \<notin> set (take (min pos ?sz) ?c1)"
    using n1 by (rule no_None_take_le) simp
  have lcs': "length cs' = length ?c1"
  proof (cases "pos < ?sz")
    case False
    then show ?thesis using lcs by (simp add: cs'_def)
  next
    case True
    have "length (cells temp) \<ge> ?sz - pos" using valid_size_le [OF t(2)] t(3) by simp
    then show ?thesis using True lcs pl g(5) len1 by (simp add: min_def cs'_def)
  qed
  show thesis
  proof (rule that [of ?v' ?h'])
    show "insert_ptr a pos (Elsewhere p) n v h = Inr (?v', ?h')" by (rule fin)
    show "contents ?v' = take pos (contents v) @ map the (take n p) @ drop pos (contents v)"
    proof -
      have "contents ?v' = map the (take ?res cs')" by (simp add: contents_def)
      also have "\<dots> = map the (take pos (take ?sz ?c1)) @ map the (take n p)
          @ map the (take (?sz - pos) (cells temp))"
        by (simp only: tk map_append)
      also have "map the (take pos (take ?sz ?c1)) = take pos (map the (take ?sz ?c1))"
        by (simp only: take_map)
      finally show ?thesis by (simp only: c1 ct)
    qed
    show "size_v ?v' = ?sz + n" by (simp add: size_v_def)
    show "well_formed ?v' ?h'"
    proof -
      have "valid ?v'"
        using v1 lcs' g(5) len1 unfolding valid_def
        by (simp add: tk np p(2) nt capacity_def)
      moreover have "heap_ok ?h'" using ok2 by (auto simp: heap_ok_def)
      ultimately show ?thesis using sl1 tl(2) by (simp add: well_formed_def)
    qed
    show "live ?h' - {start ?v'} = live h - {start v}"
      using g(6) t(5,6) by auto
    show "capacity ?v' = (if capacity v < ?res then 2 * ?res else capacity v)"
      using g(7) by (simp add: capacity_def)
  qed
qed

lemma vector_list_single:
  assumes "avail a 2"
  shows "vector_list a [x] h =
    Inr (\<lparr>start = next_addr h, finish = 1, end_of_storage = 2, cells = [Some x, None]\<rparr>,
         \<lparr>live = insert (next_addr h) (live h), next_addr = Suc (next_addr h)\<rparr>)"
proof -
  have r: "replicate 2 (None :: 'a option) = [None, None]" by (simp add: numeral_2_eq_2)
  show ?thesis using assms
    by (simp add: vector_list_def mul_sz_def capacity_factor_def create_storage_eq
        assign_content_list_def r)
qed

lemma insert_value_total:
  assumes wf: "well_formed v h" and b: "bounded a"
    and r: "roomy a (max 10 (2 * (size_v v + 1)))"
  obtains v' h' where "insert_value a pos x v h = Inr (v', h')"
    "contents v' = take pos (contents v) @ [x] @ drop pos (contents v)"
    "size_v v' = size_v v + 1" "well_formed v' h'"
    "live h' - {start v'} = live h - {start v}"
    "capacity v' = (if capacity v < size_v v + 1 then 2 * (size_v v + 1) else capacity v)"
proof -
  let ?k = "next_addr h"
  let ?tmp = "\<lparr>start = ?k, finish = 1, end_of_storage = 2, cells = [Some x, None]\<rparr>"
  let ?h1 = "\<lparr>live = insert ?k (live h), next_addr = Suc ?k\<rparr>"
  have ok: "heap_ok h" and sl: "start v \<in> live h" using wf by (simp_all add: well_formed_def)
  have fr: "?k \<notin> live h" using ok by (auto simp: heap_ok_def)
  have a2: "avail a 2" using r by (rule roomy_avail) simp_all
  have vl: "vector_list a [x] h = Inr (?tmp, ?h1)" using a2 by (rule vector_list_single)
  have wf1: "well_formed v ?h1"
    using wf by (rule well_formed_frame) (use ok sl in \<open>auto simp: heap_ok_def less_Suc_eq\<close>)
  have p1: "1 \<le> length [Some x, None]" and p2: "None \<notin> set (take 1 [Some x, None])"
    by simp_all
  have dt: "data ?tmp v = Elsewhere [Some x, None]"
    using heap_ok_fresh [OF ok sl] by (simp add: data_def)
  obtain v' h2 where i: "insert_ptr a pos (Elsewhere [Some x, None]) 1 v ?h1 = Inr (v', h2)"
    "contents v' = take pos (contents v) @ map the (take 1 [Some x, None]) @ drop pos (contents v)"
    "size_v v' = size_v v + 1" "well_formed v' h2"
    "live h2 - {start v'} = live ?h1 - {start v}"
    "capacity v' = (if capacity v < size_v v + 1 then 2 * (size_v v + 1) else capacity v)"
    by (rule insert_ptr_total [OF wf1 b r p1 p2])
  have tl: "?k \<in> live h2" "?k \<noteq> start v'"
  proof -
    have "?k \<in> live ?h1 - {start v}" using sl fr by auto
    then have "?k \<in> live h2 - {start v'}" using i(5) by simp
    then show "?k \<in> live h2" "?k \<noteq> start v'" by auto
  qed
  let ?h3 = "\<lparr>live = live h2 - {?k}, next_addr = next_addr h2\<rparr>"
  have d: "destroy ?tmp h2 = Inr ?h3" using tl(1) by (simp add: destroy_def deallocate_eq)
  show thesis
  proof (rule that [of v' ?h3])
    show "insert_value a pos x v h = Inr (v', ?h3)"
      by (simp only: insert_value_def vl seq_Inr prod.case insert_vector_def if_True
          size_v_simp vector.simps dt i(1) d refl)
    show "contents v' = take pos (contents v) @ [x] @ drop pos (contents v)"
      using i(2) by simp
    show "well_formed v' ?h3"
      using i(4) tl(2) by (auto simp: well_formed_def heap_ok_def)
    show "live ?h3 - {start v'} = live h - {start v}" using i(5) fr by auto
  qed (use i in simp_all)
qed

subsection \<open>Removal and sequences of operations\<close>

text \<open>\<open>sanitize\<close> on a well-formed vector keeps the contents; it moves them to a
  block of twice the size when the capacity exceeds four times the size.\<close>

lemma roomy_mono: "roomy a m \<Longrightarrow> n \<le> m \<Longrightarrow> roomy a n"
  by (simp add: roomy_def)

lemma sanitize_total:
  assumes wf: "well_formed v h" and b: "bounded a"
    and r: "roomy a (max 10 (2 * size_v v))"
  obtains v' h' where "sanitize a v h = Inr (v', h')" "well_formed v' h'"
    "contents v' = contents v" "size_v v' = size_v v"
    "live h' - {start v'} = live h - {start v}"
proof -
  have v: "valid v" and ok: "heap_ok h" and sl: "start v \<in> live h"
    using wf by (simp_all add: well_formed_def)
  have sb: "size_v v < 2 ^ 62" using v by (rule valid_size_bound)
  have m4: "mul_sz (size_v v) capacity_sanitize_factor = 4 * size_v v"
    using sb by (simp add: mul_sz_def capacity_sanitize_factor_def capacity_factor_def)
  have m2: "mul_sz (size_v v) capacity_factor = 2 * size_v v"
    using sb by (simp add: mul_sz_def capacity_factor_def)
  show thesis
  proof (cases "capacity v > 4 * size_v v")
    case False
    show ?thesis
      by (rule that [of v h]) (use False wf m4 in \<open>simp_all add: sanitize_def\<close>)
  next
    case True
    then have s: "sanitize a v h = reserve a (2 * size_v v) v h"
      by (simp add: sanitize_def m4 m2)
    show ?thesis
    proof (cases "size_v v = 0")
      case True
      have a10: "avail a 10" using r by (rule roomy_avail) simp_all
      obtain v' h' where c: "clear a v h = Inr (v', h')" "contents v' = []" "size_v v' = 0"
        "start v' \<in> live h'" "live h' - {start v'} = live h - {start v}" "heap_ok h'" "valid v'"
        using clear_total [OF sl ok a10] by metis
      have e: "contents v = []" using True by (simp add: contents_def size_v_def)
      show ?thesis
        by (rule that [of v' h']) (use c s True e in \<open>simp_all add: reserve_def well_formed_def\<close>)
    next
      case False
      have nz: "2 * size_v v \<noteq> 0" using False by simp
      have nc: "2 * size_v v \<noteq> capacity v" using True by simp
      have av: "avail a (2 * size_v v)" using r by (rule roomy_avail) (use False in simp_all)
      have lt: "2 * size_v v < 2 ^ 62" using b av by (rule bounded_avail)
      obtain v' h' where c: "reserve a (2 * size_v v) v h = Inr (v', h')"
        "size_v v' = min (2 * size_v v) (size_v v)"
        "contents v' = take (2 * size_v v) (contents v)"
        "start v' \<in> live h'" "live h' - {start v'} = live h - {start v}" "heap_ok h'"
        "2 * size_v v < 2 ^ 62 \<Longrightarrow> valid v'"
        using reserve_total [OF wf nz nc av] by metis
      show ?thesis
      proof (rule that [of v' h'])
        show "sanitize a v h = Inr (v', h')" using s c(1) by simp
        show "well_formed v' h'" using c(4,6,7) lt by (simp add: well_formed_def)
        show "contents v' = contents v" using c(3) v by (simp add: length_contents)
        show "size_v v' = size_v v" using c(2) by simp
        show "live h' - {start v'} = live h - {start v}" by (rule c(5))
      qed
    qed
  qed
qed


text \<open>\<open>erase\<close> where \<open>pos + len\<close> does not wrap around: the call returns, and
  the contents are those the specification prescribes.\<close>

lemma erase_total:
  assumes wf: "well_formed v h" and b: "bounded a"
    and r: "roomy a (max 10 (2 * size_v v))"
    and nw: "pos + len < 2 ^ 64"
  obtains v' h' where "erase a pos len v h = Inr (v', h')" "well_formed v' h'"
    "contents v' = prescribed_operation (Erase pos len) (contents v)"
    "size_v v' \<le> size_v v"
    "live h' - {start v'} = live h - {start v}"
proof (cases "pos > size_v v")
  case True
  have v: "valid v" using wf by (simp add: well_formed_def)
  show ?thesis
    by (rule that [of v h]) (use True wf length_contents [OF v] in \<open>simp_all add: erase_def\<close>)
next
  case False
  define sz where "sz = size_v v"
  define cs where "cs = cells v"
  define xs where "xs = contents v"
  define n where "n = (if len = 0 then sz else len)"
  define k where "k = sz - (pos + n)"
  define cs' where "cs' = take pos cs @ take k (drop (pos + n) cs) @ drop (pos + k) cs"
  have v: "valid v" and ok: "heap_ok h" and sl: "start v \<in> live h"
    using wf by (simp_all add: well_formed_def)
  have ps: "pos \<le> sz" using False by (simp add: sz_def)
  have sb: "sz < 2 ^ 62" unfolding sz_def using v by (rule valid_size_bound)
  have sl': "sz \<le> length cs" unfolding sz_def cs_def using v by (rule valid_size_le)
  have nn: "None \<notin> set (take sz cs)" unfolding sz_def cs_def using v by (rule valid_init)
  have lx: "length xs = sz" unfolding xs_def sz_def using v by (rule length_contents)
  have xs: "xs = map the (take sz cs)" by (simp add: xs_def contents_def sz_def cs_def size_v_def)
  have nw': "pos + n < 2 ^ 64" using nw ps sb by (simp add: n_def)
  have l: "erase_loop cs pos n sz = Inr (cs', pos + k)"
  proof (cases "0 < n")
    case True
    show ?thesis unfolding cs'_def k_def
      using True nw' sl' _ nn by (rule erase_loop_eq) (use sb in simp)
  next
    case False
    then have "\<not> add_sz pos n < sz" using ps by (simp add: n_def add_sz_def split: if_splits)
    moreover have "k = 0" "cs' = cs" using False ps by (simp_all add: k_def cs'_def n_def split: if_splits)
    ultimately show ?thesis by (subst erase_loop.simps) simp
  qed
  have kl: "pos + k \<le> sz" using ps by (simp add: k_def)
  have t: "take (pos + k) cs' = take pos cs @ take k (drop (pos + n) cs)"
    unfolding cs'_def using ps sl' kl by (intro take_two_parts) (simp_all add: k_def)
  have lc: "length cs' = length cs" unfolding cs'_def using ps sl' kl by (simp add: k_def)
  let ?v1 = "v\<lparr>finish := pos + k, cells := cs'\<rparr>"
  have n1: "None \<notin> set (take (pos + k) cs')"
    unfolding t using no_None_take_le [OF nn ps] no_None_take_drop [OF nn, of "pos + n"]
    by (simp add: k_def)
  have v1: "valid ?v1"
    using v kl lc n1 by (simp add: valid_def sz_def size_v_def cs_def)
  have wf1: "well_formed ?v1 h" using v1 sl ok by (simp add: well_formed_def)
  have c1: "contents ?v1 = take pos xs @ drop (pos + n) xs"
  proof -
    have "contents ?v1 = map the (take (pos + k) cs')" by (simp add: contents_def)
    also have "\<dots> = map the (take pos cs) @ map the (take k (drop (pos + n) cs))"
      by (simp only: t map_append)
    also have "map the (take pos cs) = take pos xs"
      using ps by (simp add: xs take_map min_def)
    also have "map the (take k (drop (pos + n) cs)) = drop (pos + n) xs"
      by (simp add: xs drop_map drop_take k_def)
    finally show ?thesis .
  qed
  have p: "prescribed_operation (Erase pos len) xs = take pos xs @ drop (pos + n) xs"
    using ps lx by (simp add: n_def)
  have s1: "size_v ?v1 = pos + k" by (simp add: size_v_def)
  have r1: "roomy a (max 10 (2 * size_v ?v1))"
    using r by (rule roomy_mono) (use kl in \<open>simp add: s1 sz_def\<close>)
  obtain v' h' where s: "sanitize a ?v1 h = Inr (v', h')" "well_formed v' h'"
    "contents v' = contents ?v1" "size_v v' = size_v ?v1"
    "live h' - {start v'} = live h - {start ?v1}"
    by (rule sanitize_total [OF wf1 b r1])
  have e: "erase a pos len v h = sanitize a ?v1 h"
  proof -
    have "erase a pos len v h = seq (erase_loop cs pos n sz) (\<lambda>(cs, pos').
           sanitize a (v\<lparr>finish := pos', cells := cs\<rparr>) h)"
      using False by (simp add: erase_def sz_def cs_def n_def Let_def)
    then show ?thesis by (simp add: l)
  qed
  show ?thesis
  proof (rule that [of v' h'])
    show "erase a pos len v h = Inr (v', h')" using e s(1) by simp
    show "contents v' = prescribed_operation (Erase pos len) (contents v)"
      using s(3) c1 p by (simp add: xs_def)
    show "size_v v' \<le> size_v v" using s(4) s1 kl by (simp add: sz_def)
    show "live h' - {start v'} = live h - {start v}" using s(5) by simp
  qed (rule s(2))
qed


text \<open>\<open>erase(3, 3)\<close> on a vector of size 11 (test 2 of \<open>main.cpp\<close>).\<close>

lemma erase_3_3_of_11:
  assumes wf: "well_formed v h" and b: "bounded a" and r: "roomy a 22"
    and s: "size_v v = 11"
  shows "\<exists>v' h'. erase a 3 3 v h = Inr (v', h') \<and> well_formed v' h' \<and>
    contents v' = take 3 (contents v) @ drop 6 (contents v) \<and> size_v v' = 8"
proof -
  have v: "valid v" using wf by (simp add: well_formed_def)
  have r1: "roomy a (max 10 (2 * size_v v))" using r by (simp add: s)
  have nw: "(3 :: nat) + 3 < 2 ^ 64" by simp
  obtain v' h' where e: "erase a 3 3 v h = Inr (v', h')" "well_formed v' h'"
    "contents v' = prescribed_operation (Erase 3 3) (contents v)"
    using erase_total [OF wf b r1 nw] by metis
  have l: "length (contents v) = 11" using length_contents [OF v] s by simp
  have c: "contents v' = take 3 (contents v) @ drop 6 (contents v)" using e(3) l by simp
  have v': "valid v'" using e(2) by (simp add: well_formed_def)
  have "size_v v' = length (contents v')" using length_contents [OF v'] by simp
  then have "size_v v' = 8" using l by (simp add: c)
  then show ?thesis using e(1,2) c by simp
qed

text \<open>\<open>pop_back\<close> and \<open>push_back\<close>.\<close>

lemma pop_back_total:
  assumes wf: "well_formed v h" and b: "bounded a"
    and r: "roomy a (max 10 (2 * size_v v))"
  obtains v' h' where "pop_back a v h = Inr (v', h')" "well_formed v' h'"
    "contents v' = butlast (contents v)" "size_v v' \<le> size_v v"
    "live h' - {start v'} = live h - {start v}"
proof (cases "size_v v > 0")
  case False
  then have "contents v = []" by (simp add: contents_def size_v_def)
  then show ?thesis using that [of v h] False wf by (simp add: pop_back_def)
next
  case True
  let ?v1 = "v\<lparr>finish := finish v - 1\<rparr>"
  have v: "valid v" and ok: "heap_ok h" and sl: "start v \<in> live h"
    using wf by (simp_all add: well_formed_def)
  have fl: "finish v \<le> length (cells v)" using v by (simp add: valid_def)
  have n1: "None \<notin> set (take (finish v - 1) (cells v))"
    using valid_init [OF v] by (rule no_None_take_le) (simp add: size_v_def)
  have v1: "valid ?v1" using v n1 by (auto simp: valid_def)
  have wf1: "well_formed ?v1 h" using v1 sl ok by (simp add: well_formed_def)
  have c1: "contents ?v1 = butlast (contents v)"
    using fl by (simp add: contents_def map_butlast [symmetric] butlast_take)
  have s1: "size_v ?v1 = size_v v - 1" by (simp add: size_v_def)
  have r1: "roomy a (max 10 (2 * size_v ?v1))"
    using r by (rule roomy_mono) (simp add: size_v_def)
  obtain v' h' where s: "sanitize a ?v1 h = Inr (v', h')" "well_formed v' h'"
    "contents v' = contents ?v1" "size_v v' = size_v ?v1"
    "live h' - {start v'} = live h - {start ?v1}"
    by (rule sanitize_total [OF wf1 b r1])
  show ?thesis
  proof (rule that [of v' h'])
    show "pop_back a v h = Inr (v', h')" using True s(1) by (simp add: pop_back_def)
    show "contents v' = butlast (contents v)" using s(3) c1 by simp
    show "size_v v' \<le> size_v v" using s(4) s1 by simp
    show "live h' - {start v'} = live h - {start v}" using s(5) by simp
  qed (rule s(2))
qed

lemma push_back_total:
  assumes wf: "well_formed v h" and b: "bounded a"
    and r: "roomy a (2 * (size_v v + 1))"
  obtains v' h' where "push_back a x v h = Inr (v', h')" "well_formed v' h'"
    "contents v' = contents v @ [x]" "size_v v' = size_v v + 1"
    "live h' - {start v'} = live h - {start v}"
proof -
  let ?res = "size_v v + 1"
  have v: "valid v" using wf by (simp add: well_formed_def)
  have sb: "size_v v < 2 ^ 62" using v by (rule valid_size_bound)
  have e1: "add_sz (size_v v) 1 = ?res" using sb by (intro add_sz_small) simp
  have e2: "mul_sz ?res capacity_factor = 2 * ?res"
    using sb by (simp add: mul_sz_def capacity_factor_def)
  have ar: "capacity v < ?res \<Longrightarrow> avail a (2 * ?res)"
    using r by (rule roomy_avail) simp_all
  obtain v1 h1 where g:
    "(if capacity v < ?res then reserve a (2 * ?res) v h else Inr (v, h)) = Inr (v1, h1)"
    "well_formed v1 h1" "size_v v1 = size_v v" "contents v1 = contents v"
    "?res \<le> capacity v1" "live h1 - {start v1} = live h - {start v}"
    using grow_total [OF wf b ar] by metis
  define f where "f = finish v1"
  define cs where "cs = cells v1"
  have v1: "valid v1" and ok1: "heap_ok h1" and sl1: "start v1 \<in> live h1"
    using g(2) by (simp_all add: well_formed_def)
  have fl: "f < length cs"
    using g(3,5) v1 by (simp add: f_def cs_def valid_def size_v_def capacity_def)
  have w: "wr cs f x = Inr (cs[f := Some x])" using fl by (simp add: wr_def)
  let ?v' = "v1\<lparr>finish := Suc f, cells := cs[f := Some x]\<rparr>"
  have t: "take (Suc f) (cs[f := Some x]) = take f cs @ [Some x]"
    using fl by (simp add: take_Suc_conv_app_nth)
  have nn: "None \<notin> set (take f cs)" using valid_init [OF v1] by (simp add: f_def cs_def size_v_def)
  have v': "valid ?v'"
    using v1 fl nn by (simp add: valid_def t) (simp add: cs_def)
  have c1: "contents v1 = map the (take f cs)" by (simp add: contents_def f_def cs_def)
  show ?thesis
  proof (rule that [of ?v' h1])
    have "push_back a x v h = seq (Inr (v1, h1)) (\<lambda>(v1, h1).
        seq (wr (cells v1) (finish v1) x) (\<lambda>cs.
        Inr (v1\<lparr>finish := Suc (finish v1), cells := cs\<rparr>, h1)))"
      by (simp only: push_back_def e1 e2 g(1))
    then show "push_back a x v h = Inr (?v', h1)"
      using w [unfolded f_def cs_def] by (simp add: f_def cs_def)
    show "well_formed ?v' h1" using v' ok1 sl1 by (simp add: well_formed_def)
    show "contents ?v' = contents v @ [x]"
      using g(4) c1 by (simp add: contents_def t)
    show "size_v ?v' = size_v v + 1" using g(3) by (simp add: size_v_def f_def)
    show "live h1 - {start ?v'} = live h - {start v}" using g(6) by simp
  qed
qed

text \<open>
  Sequences of operations in which no \<open>erase\<close> wraps around, with an allocator that
  satisfies the requests of the sequence: every call returns, the invariant is kept,
  and the contents are the prescribed ones.
\<close>

lemma apply_operation_total:
  assumes wf: "well_formed v h" and b: "bounded a"
    and r: "roomy a (max 10 (2 * (size_v v + growth x)))"
    and i: "in_range x"
  obtains v' h' where "apply_operation a x v h = Inr (v', h')" "well_formed v' h'"
    "contents v' = prescribed_operation x (contents v)"
    "size_v v' \<le> size_v v + growth x"
proof (cases x)
  case (Push_back y)
  have r1: "roomy a (2 * (size_v v + 1))" using r by (rule roomy_mono) (simp add: Push_back)
  obtain v' h' where "push_back a y v h = Inr (v', h')" "well_formed v' h'"
    "contents v' = contents v @ [y]" "size_v v' = size_v v + 1"
    using push_back_total [OF wf b r1] by metis
  then show ?thesis using that [of v' h'] by (simp add: Push_back)
next
  case Pop_back
  have r1: "roomy a (max 10 (2 * size_v v))" using r by (simp add: Pop_back)
  obtain v' h' where "pop_back a v h = Inr (v', h')" "well_formed v' h'"
    "contents v' = butlast (contents v)" "size_v v' \<le> size_v v"
    using pop_back_total [OF wf b r1] by metis
  then show ?thesis using that [of v' h'] by (simp add: Pop_back)
next
  case (Insert pos ys)
  have v: "valid v" using wf by (simp add: well_formed_def)
  have r1: "roomy a (max 10 (2 * (size_v v + length ys)))" using r by (simp add: Insert)
  have p1: "length ys \<le> length (map Some ys)" by simp
  have p2: "None \<notin> set (take (length ys) (map Some ys))" by auto
  obtain v' h' where s: "insert_ptr a pos (Elsewhere (map Some ys)) (length ys) v h = Inr (v', h')"
    "contents v' = take pos (contents v) @ map the (take (length ys) (map Some ys)) @ drop pos (contents v)"
    "size_v v' = size_v v + length ys" "well_formed v' h'"
    using insert_ptr_total [OF wf b r1 p1 p2] by metis
  have m: "map the (take (length ys) (map Some ys)) = ys" by (simp add: comp_def)
  show ?thesis
    using that [of v' h'] s by (simp add: Insert m)
next
  case (Erase pos len)
  have r1: "roomy a (max 10 (2 * size_v v))" using r by (simp add: Erase)
  have nw: "pos + len < 2 ^ 64" using i by (simp add: Erase)
  obtain v' h' where "erase a pos len v h = Inr (v', h')" "well_formed v' h'"
    "contents v' = prescribed_operation (Erase pos len) (contents v)"
    "size_v v' \<le> size_v v"
    using erase_total [OF wf b r1 nw] by metis
  then show ?thesis using that [of v' h'] by (simp add: Erase)
qed

lemma run_total:
  assumes "well_formed v h" "bounded a"
    "roomy a (max 10 (2 * (size_v v + sum_list (map growth ops))))"
    "list_all in_range ops"
  shows "\<exists>v' h'. run a ops v h = Inr (v', h') \<and> well_formed v' h' \<and>
    size_v v' \<le> capacity v' \<and> contents v' = prescribed ops (contents v)"
  using assms
proof (induction ops arbitrary: v h)
  case Nil
  then show ?case
    by (simp add: prescribed_def well_formed_def valid_def size_v_def capacity_def)
next
  case (Cons x ops)
  have r1: "roomy a (max 10 (2 * (size_v v + growth x)))"
    using Cons.prems(3) by (rule roomy_mono) simp
  have i: "in_range x" using Cons.prems(4) by simp
  obtain v1 h1 where s: "apply_operation a x v h = Inr (v1, h1)" "well_formed v1 h1"
    "contents v1 = prescribed_operation x (contents v)"
    "size_v v1 \<le> size_v v + growth x"
    by (rule apply_operation_total [OF Cons.prems(1,2) r1 i])
  have r2: "roomy a (max 10 (2 * (size_v v1 + sum_list (map growth ops))))"
    using Cons.prems(3) by (rule roomy_mono) (use s(4) in simp)
  have i2: "list_all in_range ops" using Cons.prems(4) by simp
  show ?case
    using Cons.IH [OF s(2) Cons.prems(2) r2 i2] s(1,3) by (simp add: prescribed_def)
qed

subsection \<open>Claims about \<open>vector\<close>\<close>

text \<open>
  Claim C3, on a \<open>const\<close> vector: the \<open>const\<close> overload of \<open>operator[]\<close>
  calls itself, so for every vector and every index it neither raises the out-of-range
  condition nor returns an element: it does not return.
\<close>

theorem index_const_never_returns: "index_const v pos = None"
  using index_const_Some_False [of v pos] by (cases "index_const v pos") auto

text \<open>
  Claim C6: on a well-formed vector \<open>reserve(0)\<close> is \<open>clear()\<close>; \<open>reserve\<close> of
  the current capacity changes nothing; and for any other \<open>n\<close> that the allocator
  satisfies, \<open>reserve(n)\<close> leaves capacity \<open>n\<close>, size \<open>min(n, size)\<close> and the first
  \<open>min(n, size)\<close> old elements in order, in a new live block, the old block being
  released. Where the allocator does not satisfy the request, \<open>bad_alloc\<close> is thrown.
\<close>

theorem reserve_behaviour:
  assumes "well_formed v h"
  shows "reserve a 0 v h = clear a v h \<and>
         reserve a (capacity v) v h = Inr (v, h) \<and>
         (n \<noteq> 0 \<and> n \<noteq> capacity v \<and> avail a n \<longrightarrow>
            (\<exists>v' h'. reserve a n v h = Inr (v', h') \<and> capacity v' = n \<and>
               size_v v' = min n (size_v v) \<and>
               contents v' = take (min n (size_v v)) (contents v) \<and>
               start v \<in> live h \<and> start v \<notin> live h' \<and> start v' \<in> live h')) \<and>
         (n \<noteq> 0 \<and> n \<noteq> capacity v \<and> \<not> avail a n \<longrightarrow>
            reserve a n v h = Inl (Thrown bad_alloc))"
proof (intro conjI impI)
  show "reserve a 0 v h = clear a v h" by (simp add: reserve_def)
  show "reserve a (capacity v) v h = Inr (v, h)"
    using well_formed_capacity_pos [OF assms] by (simp add: reserve_def)
next
  assume n: "n \<noteq> 0 \<and> n \<noteq> capacity v \<and> avail a n"
  then obtain v' h' where r: "reserve a n v h = Inr (v', h')" "capacity v' = n"
    "size_v v' = min n (size_v v)" "contents v' = take n (contents v)"
    "start v \<notin> live h'" "start v' \<in> live h'"
    using reserve_total [OF assms, of n a] by metis
  have "take n (contents v) = take (min n (size_v v)) (contents v)"
    using assms by (simp add: well_formed_def min_def length_contents)
  then show "\<exists>v' h'. reserve a n v h = Inr (v', h') \<and> capacity v' = n \<and>
               size_v v' = min n (size_v v) \<and>
               contents v' = take (min n (size_v v)) (contents v) \<and>
               start v \<in> live h \<and> start v \<notin> live h' \<and> start v' \<in> live h'"
    using r assms by (auto simp: well_formed_def)
next
  assume "n \<noteq> 0 \<and> n \<noteq> capacity v \<and> \<not> avail a n"
  then show "reserve a n v h = Inl (Thrown bad_alloc)"
    using assms reserve_eq [of v h n a] by (simp add: well_formed_def)
qed

text \<open>The theorem at \<open>reserve(5)\<close> on a vector of size 8 and capacity 22, as in
  \<open>test_vector\<close>, with an allocator that satisfies requests of up to 1000 cells.\<close>

theorem reserve_behaviour_witness:
  "well_formed \<lparr>start = 0, finish = 8, end_of_storage = 22,
      cells = map Some [11, 20, 40, 900, 1000, 9000, - 1, - 432 :: int] @ replicate 14 None\<rparr>
     \<lparr>live = {0}, next_addr = 1\<rparr> \<and>
   (\<exists>v' h'. reserve \<lparr>avail = (\<lambda>n. n \<le> 1000), nothrow = True\<rparr> 5
        \<lparr>start = 0, finish = 8, end_of_storage = 22,
          cells = map Some [11, 20, 40, 900, 1000, 9000, - 1, - 432 :: int] @ replicate 14 None\<rparr>
        \<lparr>live = {0}, next_addr = 1\<rparr> = Inr (v', h') \<and>
      capacity v' = 5 \<and> size_v v' = 5 \<and> contents v' = [11, 20, 40, 900, 1000] \<and>
      0 \<notin> live h' \<and> start v' \<in> live h')"
proof -
  let ?v = "\<lparr>start = 0, finish = 8, end_of_storage = 22,
      cells = map Some [11, 20, 40, 900, 1000, 9000, - 1, - 432 :: int] @ replicate 14 None\<rparr>"
  let ?h = "\<lparr>live = {0}, next_addr = 1\<rparr>"
  have w: "well_formed ?v ?h" by (simp add: well_formed_def valid_def heap_ok_def)
  have c: "contents ?v = [11, 20, 40, 900, 1000, 9000, - 1, - 432]" by simp
  show ?thesis
    using w reserve_behaviour [OF w, of "\<lparr>avail = (\<lambda>n. n \<le> 1000), nothrow = True\<rparr>" 5]
    unfolding c by simp
qed

text \<open>
  Claim C10: \<open>allocate(0)\<close> is the null pointer, and each constructor that sizes its
  block as a count times the growth factor raises \<open>bad_alloc\<close> in
  \<open>create_storage\<close> when the count is zero, instead of producing an empty vector.
  \<open>vector(0)\<close> and \<open>vector(0, value)\<close> throw it to the caller. The move
  constructor is \<open>noexcept\<close>, and so are the copy and initializer-list constructors
  for an allocator that is nothrow-constructible, like \<open>std::allocator\<close>: there the
  exception cannot leave the constructor and ends in \<open>std::terminate\<close>.
\<close>

theorem zero_count_constructors_terminate:
  "allocate a 0 h = Inr (None, h) \<and>
   vector_n a (d :: 'a) 0 h = Inl (Thrown bad_alloc) \<and>
   vector_fill a 0 (d :: 'a) h = Inl (Thrown bad_alloc) \<and>
   (size_v (vec :: 'a vector) = 0 \<longrightarrow>
      vector_copy a vec h = Inl (if nothrow a then Terminated bad_alloc else Thrown bad_alloc) \<and>
      vector_move a vec h = Inl (Terminated bad_alloc)) \<and>
   vector_list a ([] :: 'a list) h
     = Inl (if nothrow a then Terminated bad_alloc else Thrown bad_alloc)"
  by (simp add: allocate_def vector_n_def vector_fill_def vector_copy_def vector_move_def
      vector_list_def create_storage_eq mul_sz_def)

text \<open>The theorem at a default-constructed vector, the source of the copy and of the
  move, with an allocator that is nothrow-constructible.\<close>

theorem zero_count_constructors_terminate_witness:
  "size_v \<lparr>start = 0, finish = 0, end_of_storage = 10, cells = replicate 10 (None :: int option)\<rparr> = 0 \<and>
   vector_n \<lparr>avail = (\<lambda>n. n \<le> 1000), nothrow = True\<rparr> (0 :: int) 0 \<lparr>live = {0}, next_addr = 1\<rparr>
     = Inl (Thrown bad_alloc) \<and>
   vector_fill \<lparr>avail = (\<lambda>n. n \<le> 1000), nothrow = True\<rparr> 0 (0 :: int) \<lparr>live = {0}, next_addr = 1\<rparr>
     = Inl (Thrown bad_alloc) \<and>
   vector_copy \<lparr>avail = (\<lambda>n. n \<le> 1000), nothrow = True\<rparr>
     \<lparr>start = 0, finish = 0, end_of_storage = 10, cells = replicate 10 (None :: int option)\<rparr>
     \<lparr>live = {0}, next_addr = 1\<rparr> = Inl (Terminated bad_alloc) \<and>
   vector_move \<lparr>avail = (\<lambda>n. n \<le> 1000), nothrow = True\<rparr>
     \<lparr>start = 0, finish = 0, end_of_storage = 10, cells = replicate 10 (None :: int option)\<rparr>
     \<lparr>live = {0}, next_addr = 1\<rparr> = Inl (Terminated bad_alloc) \<and>
   vector_list \<lparr>avail = (\<lambda>n. n \<le> 1000), nothrow = True\<rparr> ([] :: int list)
     \<lparr>live = {0}, next_addr = 1\<rparr> = Inl (Terminated bad_alloc)"
  using zero_count_constructors_terminate [of "\<lparr>avail = (\<lambda>n. n \<le> 1000), nothrow = True\<rparr>"
      "\<lparr>live = {0}, next_addr = 1\<rparr>" "0 :: int"
      "\<lparr>start = 0, finish = 0, end_of_storage = 10, cells = replicate 10 (None :: int option)\<rparr>"]
  by simp

text \<open>
  Claim C4 at \<open>erase(1, 2^64 - 1)\<close> on the vector \<open>{1, 2, 3}\<close> of capacity 6:
  \<open>pos + len\<close> wraps around to 0, the loop copies \<open>start[0]\<close> forward until
  \<open>pos + len\<close> reaches the size, and the vector grows to \<open>{1, 1, 1, 1}\<close>; the
  overlap of \<open>[1, 1 + len)\<close> with the contents is \<open>[1, 3)\<close>, whose removal leaves
  \<open>{1}\<close>.
\<close>

theorem erase_wraps_around:
  "erase a 1 18446744073709551615
     \<lparr>start = 0, finish = 3, end_of_storage = 6,
       cells = [Some 1, Some 2, Some 3, None, None, None :: int option]\<rparr> h
   = Inr (\<lparr>start = 0, finish = 4, end_of_storage = 6,
            cells = [Some 1, Some 1, Some 1, Some 1, None, None]\<rparr>, h)"
proof -
  define len :: nat where "len = 18446744073709551615"
  have a: "add_sz (Suc 0) len = 0" "add_sz (Suc (Suc 0)) len = Suc 0"
    "add_sz (Suc (Suc (Suc 0))) len = Suc (Suc 0)"
    "add_sz (Suc (Suc (Suc (Suc 0)))) len = Suc (Suc (Suc 0))"
    by (simp_all add: add_sz_def len_def)
  have l: "erase_loop [Some 1, Some 2, Some 3, None, None, None :: int option] (Suc 0) len 3
     = Inr ([Some 1, Some 1, Some 1, Some 1, None, None], Suc (Suc (Suc (Suc 0))))"
    by (simp add: erase_loop.simps a rd_def)
  have n: "len \<noteq> 0" by (simp add: len_def)
  show ?thesis
    unfolding len_def [symmetric] using n
    by (simp add: erase_def size_v_def l sanitize_def capacity_def mul_sz_def
      capacity_sanitize_factor_def capacity_factor_def)
qed

text \<open>
  Claim C2 at the vector \<open>{1, 2, 3}\<close> of capacity 6 and the sequence
  \<open>push_back(4)\<close>, \<open>erase(2, 2^64 - 1)\<close>: both calls return, and the first
  \<open>size\<close> cells are \<open>{1, 2, 2, 2, 2}\<close> where the sequence prescribes
  \<open>{1, 2}\<close>. It is the wrap-around of \<open>pos + len\<close> in the loop of \<open>erase\<close>
  again, here in the middle of a sequence of operations.
\<close>

theorem run_erase_wraps_around:
  "run a [Push_back 4, Erase 2 18446744073709551615]
     \<lparr>start = 0, finish = 3, end_of_storage = 6,
       cells = [Some 1, Some 2, Some 3, None, None, None :: int option]\<rparr> h
   = Inr (\<lparr>start = 0, finish = 5, end_of_storage = 6,
            cells = [Some 1, Some 2, Some 2, Some 2, Some 2, None]\<rparr>, h) \<and>
   contents \<lparr>start = 0, finish = 5, end_of_storage = 6,
       cells = [Some 1, Some 2, Some 2, Some 2, Some 2, None :: int option]\<rparr>
     = [1, 2, 2, 2, 2] \<and>
   prescribed [Push_back 4, Erase 2 18446744073709551615] [1, 2, 3 :: int] = [1, 2]"
proof -
  define len :: nat where "len = 18446744073709551615"
  have a: "add_sz 2 len = 1" "add_sz 3 len = 2" "add_sz 4 len = 3" "add_sz 5 len = 4"
    by (simp_all add: add_sz_def len_def)
  have l: "erase_loop [Some 1, Some 2, Some 3, Some 4, None, None :: int option] 2 len 4
     = Inr ([Some 1, Some 2, Some 2, Some 2, Some 2, None], 5)"
    by (simp add: erase_loop.simps a rd_def list_update_Cons_numeral)
  have n: "len \<noteq> 0" "2 \<le> len" by (simp_all add: len_def)
  have p: "push_back a 4 \<lparr>start = 0, finish = 3, end_of_storage = 6,
       cells = [Some 1, Some 2, Some 3, None, None, None :: int option]\<rparr> h
     = Inr (\<lparr>start = 0, finish = 4, end_of_storage = 6,
       cells = [Some 1, Some 2, Some 3, Some 4, None, None]\<rparr>, h)"
    by (simp add: push_back_def capacity_def size_v_def add_sz_def wr_def
      list_update_Cons_numeral)
  have e: "erase a 2 len \<lparr>start = 0, finish = 4, end_of_storage = 6,
       cells = [Some 1, Some 2, Some 3, Some 4, None, None :: int option]\<rparr> h
     = Inr (\<lparr>start = 0, finish = 5, end_of_storage = 6,
            cells = [Some 1, Some 2, Some 2, Some 2, Some 2, None]\<rparr>, h)"
    using n(1)
    by (simp add: erase_def size_v_def l sanitize_def capacity_def mul_sz_def
      capacity_sanitize_factor_def capacity_factor_def)
  have s: "prescribed [Push_back 4, Erase 2 len] [1, 2, 3 :: int] = [1, 2]"
    using n by (simp add: prescribed_def)
  show ?thesis
    unfolding len_def [symmetric] using p e s by simp
qed

text \<open>
  Claim C5: on a well-formed vector, with an allocator that satisfies the requests
  involved, \<open>insert(pos, p, count)\<close> for a buffer \<open>p\<close> outside the block of the
  vector that holds the \<open>count\<close> elements \<open>xs\<close> returns; if \<open>pos \<ge> size\<close> the
  new elements are appended, and otherwise the result is the old prefix \<open>[0, pos)\<close>,
  the new elements and the old tail in order; the size grows by \<open>count\<close>.
  \<open>insert(pos, value)\<close> gives the contents, size and capacity of the bulk form with
  the single element, and \<open>insert(pos, other, 0)\<close> is the bulk form with
  \<open>other.data()\<close> and the size of \<open>other\<close> as the count, with the same result for a
  vector \<open>other\<close> that is not the vector itself.
\<close>

theorem insert_behaviour:
  assumes "well_formed v h" "bounded a"
  shows
   "(roomy a (max 10 (2 * (size_v v + length xs))) \<longrightarrow>
      (\<exists>v' h'. insert_ptr a pos (Elsewhere (map Some xs)) (length xs) v h = Inr (v', h') \<and>
         contents v' = (if pos \<ge> size_v v then contents v @ xs
                        else take pos (contents v) @ xs @ drop pos (contents v)) \<and>
         size_v v' = size_v v + length xs \<and> well_formed v' h')) \<and>
    (roomy a (max 10 (2 * (size_v v + 1))) \<longrightarrow>
      (\<exists>v' h' v1 h1. insert_value a pos x v h = Inr (v', h') \<and>
         insert_ptr a pos (Elsewhere [Some x]) 1 v h = Inr (v1, h1) \<and>
         contents v' = contents v1 \<and> size_v v' = size_v v1 \<and> capacity v' = capacity v1 \<and>
         contents v' = (if pos \<ge> size_v v then contents v @ [x]
                        else take pos (contents v) @ [x] @ drop pos (contents v)) \<and>
         well_formed v' h')) \<and>
    insert_vector a pos other 0 v h = insert_ptr a pos (data other v) (size_v other) v h \<and>
    (valid other \<and> start other \<noteq> start v \<and>
     roomy a (max 10 (2 * (size_v v + size_v other))) \<longrightarrow>
      (\<exists>v' h'. insert_vector a pos other 0 v h = Inr (v', h') \<and>
         contents v' = (if pos \<ge> size_v v then contents v @ contents other
                        else take pos (contents v) @ contents other @ drop pos (contents v)) \<and>
         size_v v' = size_v v + size_v other \<and> well_formed v' h'))"
proof (intro conjI impI)
  have len: "length (contents v) = size_v v"
    using assms(1) by (simp add: well_formed_def length_contents)
  have sp: "\<And>ys. take pos (contents v) @ ys @ drop pos (contents v)
      = (if pos \<ge> size_v v then contents v @ ys
         else take pos (contents v) @ ys @ drop pos (contents v))"
    using len by simp
  {
    assume r: "roomy a (max 10 (2 * (size_v v + length xs)))"
    have p1: "length xs \<le> length (map Some xs)"
      and p2: "None \<notin> set (take (length xs) (map Some xs))" by auto
    obtain v' h' where
      i: "insert_ptr a pos (Elsewhere (map Some xs)) (length xs) v h = Inr (v', h')"
      "contents v' = take pos (contents v) @ map the (take (length xs) (map Some xs))
          @ drop pos (contents v)"
      "size_v v' = size_v v + length xs" "well_formed v' h'"
      "live h' - {start v'} = live h - {start v}"
      "capacity v' = (if capacity v < size_v v + length xs then 2 * (size_v v + length xs)
          else capacity v)"
      by (rule insert_ptr_total [OF assms r p1 p2])
    have "map the (take (length xs) (map Some xs)) = xs" by (simp add: comp_def)
    then have "contents v' = (if pos \<ge> size_v v then contents v @ xs
                        else take pos (contents v) @ xs @ drop pos (contents v))"
      using i(2) sp [of xs] by simp
    then show "\<exists>v' h'. insert_ptr a pos (Elsewhere (map Some xs)) (length xs) v h = Inr (v', h') \<and>
         contents v' = (if pos \<ge> size_v v then contents v @ xs
                        else take pos (contents v) @ xs @ drop pos (contents v)) \<and>
         size_v v' = size_v v + length xs \<and> well_formed v' h'"
      using i(1,3,4) by blast
  }
  {
    assume r: "roomy a (max 10 (2 * (size_v v + 1)))"
    obtain v' h' where i: "insert_value a pos x v h = Inr (v', h')"
      "contents v' = take pos (contents v) @ [x] @ drop pos (contents v)"
      "size_v v' = size_v v + 1" "well_formed v' h'"
      "live h' - {start v'} = live h - {start v}"
      "capacity v' = (if capacity v < size_v v + 1 then 2 * (size_v v + 1) else capacity v)"
      by (rule insert_value_total [OF assms r])
    have p1: "1 \<le> length [Some x]" and p2: "None \<notin> set (take 1 [Some x])" by simp_all
    obtain v1 h1 where j: "insert_ptr a pos (Elsewhere [Some x]) 1 v h = Inr (v1, h1)"
      "contents v1 = take pos (contents v) @ map the (take 1 [Some x]) @ drop pos (contents v)"
      "size_v v1 = size_v v + 1" "well_formed v1 h1"
      "live h1 - {start v1} = live h - {start v}"
      "capacity v1 = (if capacity v < size_v v + 1 then 2 * (size_v v + 1) else capacity v)"
      by (rule insert_ptr_total [OF assms r p1 p2])
    have "contents v' = contents v1" using i(2) j(2) by simp
    moreover have "contents v' = (if pos \<ge> size_v v then contents v @ [x]
                        else take pos (contents v) @ [x] @ drop pos (contents v))"
      using i(2) sp [of "[x]"] by simp
    ultimately show "\<exists>v' h' v1 h1. insert_value a pos x v h = Inr (v', h') \<and>
         insert_ptr a pos (Elsewhere [Some x]) 1 v h = Inr (v1, h1) \<and>
         contents v' = contents v1 \<and> size_v v' = size_v v1 \<and> capacity v' = capacity v1 \<and>
         contents v' = (if pos \<ge> size_v v then contents v @ [x]
                        else take pos (contents v) @ [x] @ drop pos (contents v)) \<and>
         well_formed v' h'"
      using i(1,3,4,6) j(1,3,6) by (intro exI [of _ v'] exI [of _ h'] exI [of _ v1] exI [of _ h1]) simp
  }
  show "insert_vector a pos other 0 v h = insert_ptr a pos (data other v) (size_v other) v h"
    by (simp add: insert_vector_def)
  {
    assume o: "valid other \<and> start other \<noteq> start v \<and>
      roomy a (max 10 (2 * (size_v v + size_v other)))"
    then have r: "roomy a (max 10 (2 * (size_v v + size_v other)))" and vo: "valid other"
      and ne: "start other \<noteq> start v"
      by simp_all
    have dt: "data other v = Elsewhere (cells other)" using ne by (simp add: data_def)
    have p1: "size_v other \<le> length (cells other)" using vo by (rule valid_size_le)
    have p2: "None \<notin> set (take (size_v other) (cells other))" using vo by (rule valid_init)
    obtain v' h' where
      i: "insert_ptr a pos (Elsewhere (cells other)) (size_v other) v h = Inr (v', h')"
      "contents v' = take pos (contents v) @ map the (take (size_v other) (cells other))
          @ drop pos (contents v)"
      "size_v v' = size_v v + size_v other" "well_formed v' h'"
      "live h' - {start v'} = live h - {start v}"
      "capacity v' = (if capacity v < size_v v + size_v other then 2 * (size_v v + size_v other)
          else capacity v)"
      by (rule insert_ptr_total [OF assms r p1 p2])
    have "map the (take (size_v other) (cells other)) = contents other"
      by (simp add: contents_def size_v_def)
    then have "contents v' = (if pos \<ge> size_v v then contents v @ contents other
                        else take pos (contents v) @ contents other @ drop pos (contents v))"
      using i(2) sp [of "contents other"] by simp
    then show "\<exists>v' h'. insert_vector a pos other 0 v h = Inr (v', h') \<and>
         contents v' = (if pos \<ge> size_v v then contents v @ contents other
                        else take pos (contents v) @ contents other @ drop pos (contents v)) \<and>
         size_v v' = size_v v + size_v other \<and> well_formed v' h'"
      using i(1,3,4) by (auto simp: insert_vector_def dt)
  }
qed

text \<open>The theorem at the vector \<open>{1, 2, 3}\<close>: the buffer \<open>{7, 8}\<close>, the value 0 and
  the vector \<open>{4, 5}\<close> inserted at position 1.\<close>

theorem insert_behaviour_witness:
  "well_formed \<lparr>start = 0, finish = 3, end_of_storage = 6,
       cells = [Some 1, Some 2, Some 3, None, None, None :: int option]\<rparr>
     \<lparr>live = {0, 1}, next_addr = 2\<rparr> \<and>
   bounded \<lparr>avail = (\<lambda>n. n \<le> 1000), nothrow = True\<rparr> \<and>
   roomy \<lparr>avail = (\<lambda>n. n \<le> 1000), nothrow = True\<rparr> 10 \<and>
   valid \<lparr>start = 1, finish = 2, end_of_storage = 4, cells = [Some 4, Some 5, None, None :: int option]\<rparr> \<and>
   (\<exists>v' h'. insert_ptr \<lparr>avail = (\<lambda>n. n \<le> 1000), nothrow = True\<rparr> 1
        (Elsewhere (map Some [7, 8 :: int])) (length [7, 8 :: int])
        \<lparr>start = 0, finish = 3, end_of_storage = 6,
          cells = [Some 1, Some 2, Some 3, None, None, None]\<rparr>
        \<lparr>live = {0, 1}, next_addr = 2\<rparr> = Inr (v', h') \<and>
      contents v' = [1, 7, 8, 2, 3] \<and> size_v v' = 5) \<and>
   (\<exists>v' h'. insert_value \<lparr>avail = (\<lambda>n. n \<le> 1000), nothrow = True\<rparr> 1 0
        \<lparr>start = 0, finish = 3, end_of_storage = 6,
          cells = [Some 1, Some 2, Some 3, None, None, None :: int option]\<rparr>
        \<lparr>live = {0, 1}, next_addr = 2\<rparr> = Inr (v', h') \<and>
      contents v' = [1, 0, 2, 3]) \<and>
   (\<exists>v' h'. insert_vector \<lparr>avail = (\<lambda>n. n \<le> 1000), nothrow = True\<rparr> 1
        \<lparr>start = 1, finish = 2, end_of_storage = 4, cells = [Some 4, Some 5, None, None]\<rparr> 0
        \<lparr>start = 0, finish = 3, end_of_storage = 6,
          cells = [Some 1, Some 2, Some 3, None, None, None :: int option]\<rparr>
        \<lparr>live = {0, 1}, next_addr = 2\<rparr> = Inr (v', h') \<and>
      contents v' = [1, 4, 5, 2, 3])"
proof -
  let ?v = "\<lparr>start = 0, finish = 3, end_of_storage = 6,
       cells = [Some 1, Some 2, Some 3, None, None, None :: int option]\<rparr>"
  let ?h = "\<lparr>live = {0, 1}, next_addr = 2\<rparr>"
  let ?a = "\<lparr>avail = (\<lambda>n. n \<le> 1000), nothrow = True\<rparr>"
  let ?o = "\<lparr>start = 1, finish = 2, end_of_storage = 4, cells = [Some 4, Some 5, None, None :: int option]\<rparr>"
  have w: "well_formed ?v ?h" by (simp add: well_formed_def valid_def heap_ok_def)
  have b: "bounded ?a" by (simp add: bounded_def)
  have r: "roomy ?a m" if "m \<le> 1000" for m using that by (simp add: roomy_def)
  have o: "valid ?o" by (simp add: valid_def)
  have c: "contents ?v = [1, 2, 3]" "contents ?o = [4, 5]" by simp_all
  note t = insert_behaviour [OF w b, of "[7, 8]" 1 0 ?o]
  show ?thesis using w b r [of 10] o t unfolding c by (simp add: insert_vector_def) blast
qed

text \<open>
  The vector \<open>{1, 2, 3}\<close> of capacity 6 inserted into itself at position 1,
  \<open>v.insert(1, v)\<close>, which is \<open>v.insert(1, v.data(), 3)\<close>: the buffer is the block
  the loop writes, each \<open>p[j]\<close> is the cell written one step before, and the result is
  \<open>{1, 1, 1, 1, 2, 3}\<close>, not the prefix \<open>{1}\<close>, the elements \<open>{1, 2, 3}\<close> and the
  tail \<open>{2, 3}\<close>. With capacity 4 the block is returned by \<open>reserve\<close> before the
  loop reads it.
\<close>

theorem insert_own_block:
  "insert_ptr \<lparr>avail = (\<lambda>n. n \<le> 1000), nothrow = True\<rparr> 1 (Into 0 0) 3
     \<lparr>start = 0, finish = 3, end_of_storage = 6,
       cells = [Some 1, Some 2, Some 3, None, None, None :: int option]\<rparr>
     \<lparr>live = {0}, next_addr = 1\<rparr>
   = Inr (\<lparr>start = 0, finish = 6, end_of_storage = 6,
            cells = [Some 1, Some 1, Some 1, Some 1, Some 2, Some 3]\<rparr>,
          \<lparr>live = {0}, next_addr = 4\<rparr>) \<and>
   insert_vector \<lparr>avail = (\<lambda>n. n \<le> 1000), nothrow = True\<rparr> 1
     \<lparr>start = 0, finish = 3, end_of_storage = 6,
       cells = [Some 1, Some 2, Some 3, None, None, None :: int option]\<rparr> 0
     \<lparr>start = 0, finish = 3, end_of_storage = 6,
       cells = [Some 1, Some 2, Some 3, None, None, None :: int option]\<rparr>
     \<lparr>live = {0}, next_addr = 1\<rparr>
   = Inr (\<lparr>start = 0, finish = 6, end_of_storage = 6,
            cells = [Some 1, Some 1, Some 1, Some 1, Some 2, Some 3]\<rparr>,
          \<lparr>live = {0}, next_addr = 4\<rparr>) \<and>
   contents \<lparr>start = 0, finish = 6, end_of_storage = 6,
       cells = [Some 1, Some 1, Some 1, Some 1, Some 2, Some 3 :: int option]\<rparr>
     = [1, 1, 1, 1, 2, 3] \<and>
   take 1 [1, 2, 3 :: int] @ [1, 2, 3] @ drop 1 [1, 2, 3] = [1, 1, 2, 3, 2, 3] \<and>
   insert_vector \<lparr>avail = (\<lambda>n. n \<le> 1000), nothrow = True\<rparr> 1
     \<lparr>start = 0, finish = 3, end_of_storage = 4,
       cells = [Some 1, Some 2, Some 3, None :: int option]\<rparr> 0
     \<lparr>start = 0, finish = 3, end_of_storage = 4,
       cells = [Some 1, Some 2, Some 3, None :: int option]\<rparr>
     \<lparr>live = {0}, next_addr = 1\<rparr>
   = Inl Undefined"
proof -
  let ?a = "\<lparr>avail = (\<lambda>n. n \<le> 1000), nothrow = True\<rparr>"
  let ?h = "\<lparr>live = {0}, next_addr = 1\<rparr>"
  let ?h1 = "\<lparr>live = {0, 2}, next_addr = 4\<rparr>"
  let ?v = "\<lparr>start = 0, finish = 3, end_of_storage = 6,
       cells = [Some 1, Some 2, Some 3, None, None, None :: int option]\<rparr>"
  let ?w = "\<lparr>start = 0, finish = 3, end_of_storage = 4,
       cells = [Some 1, Some 2, Some 3, None :: int option]\<rparr>"
  let ?temp = "\<lparr>start = 2, finish = 2, end_of_storage = 4,
       cells = [Some 2, Some 3, None, None :: int option]\<rparr>"
  note st = save_tail_example [unfolded One_nat_def]
  have e: "add_sz 3 3 = 6" "mul_sz 6 capacity_factor = 12"
    by (simp_all add: add_sz_def mul_sz_def capacity_factor_def)
  have l1: "insert_new [Some 1, Some 2, Some 3, None, None, None :: int option] 0 ?h1
      (Into 0 0) (Suc 0) 0 3
    = Inr ([Some 1, Some 1, Some 1, Some 1, None, None], Suc (Suc (Suc (Suc 0))))"
    by (simp add: insert_new.simps deref_def rd_def)
  have l2: "insert_tail [Some 1, Some 1, Some 1, Some 1, None, None :: int option] ?temp
      (Suc (Suc (Suc (Suc 0)))) 0
    = Inr [Some 1, Some 1, Some 1, Some 1, Some 2, Some 3]"
    by (simp add: insert_tail.simps index_def rd_def size_v_def)
  have d: "destroy ?temp ?h1 = Inr \<lparr>live = {0}, next_addr = 4\<rparr>"
    by (simp add: destroy_def deallocate_def a_deallocate_def) auto
  have p: "insert_ptr ?a 1 (Into 0 0) 3 ?v ?h
    = Inr (\<lparr>start = 0, finish = 6, end_of_storage = 6,
            cells = [Some 1, Some 1, Some 1, Some 1, Some 2, Some 3]\<rparr>,
          \<lparr>live = {0}, next_addr = 4\<rparr>)"
    by (simp add: insert_ptr_def st e l1 l2 d)
  have wv: "valid ?w" by (simp add: valid_def)
  have r: "reserve ?a 12 ?w ?h1
    = Inr (\<lparr>start = 4, finish = 3, end_of_storage = 12,
             cells = [Some 1, Some 2, Some 3] @ replicate 9 None\<rparr>,
           \<lparr>live = {2, 4}, next_addr = 5\<rparr>)"
    using reserve_eq [OF wv, of ?h1 12 ?a] by (simp add: capacity_def) (auto simp: numeral_eq_Suc)
  have q: "insert_ptr ?a 1 (Into 0 0) 3 ?w ?h = Inl Undefined"
    by (simp add: insert_ptr_def st e r insert_new.simps deref_def)
  show ?thesis using p q by (simp add: insert_vector_def data_def)
qed

end
